theory Spec2Isabelle
  imports Complex_Main
begin

section \<open>Text, characters and the lexicon\<close>

text \<open>
  The script \<^verbatim>\<open>scripts/clean_tb2_syllable_spacing.py\<close> works on Python strings, which
  are sequences of Unicode code points. A character is modelled as its code point and a
  string as a list of code points. Python floats are modelled as exact reals.
\<close>

type_synonym uchar = nat
type_synonym ustring = "nat list"

definition u :: "string \<Rightarrow> ustring" where
  \<comment> \<open>an ASCII literal as a list of code points\<close>
  "u s = map of_char s"

definition is_letter :: "uchar \<Rightarrow> bool" where
  \<comment> \<open>\<^verbatim>\<open>LETTER_CLASS\<close>: A-Z, a-z, U+00C0-U+00D6, U+00D8-U+00F6, U+00F8-U+00FF\<close>
  "is_letter c \<longleftrightarrow>
     (65 \<le> c \<and> c \<le> 90) \<or> (97 \<le> c \<and> c \<le> 122) \<or> (192 \<le> c \<and> c \<le> 214) \<or>
     (216 \<le> c \<and> c \<le> 246) \<or> (248 \<le> c \<and> c \<le> 255)"

definition is_word_char :: "uchar \<Rightarrow> bool" where
  \<comment> \<open>the class \<^verbatim>\<open>[LETTER_CLASS-]\<close>: a letter or the hyphen\<close>
  "is_word_char c \<longleftrightarrow> is_letter c \<or> c = 45"

definition is_word_token :: "ustring \<Rightarrow> bool" where
  \<comment> \<open>\<^verbatim>\<open>WORD_TOKEN_RE.fullmatch(token)\<close>: one or more word characters\<close>
  "is_word_token t \<longleftrightarrow> t \<noteq> [] \<and> list_all is_word_char t"


text \<open>
  \<^verbatim>\<open>str.lower\<close> is only ever applied to word tokens and their concatenations, that is to
  strings of letters of \<^verbatim>\<open>LETTER_CLASS\<close> and hyphens, all of them code points up to
  U+00FF. \<open>lower_char\<close> is Python's lowercasing on that range (A-Z, U+00C0-U+00D6 and
  U+00D8-U+00DE move up by 32, everything else stays). Above U+00FF it is the identity,
  which is not what Python does there; the theorems that speak of tokens therefore assume
  word tokens (\<open>is_word_token\<close>), as the tokens of the script always are.
\<close>

definition lower_char :: "uchar \<Rightarrow> uchar" where
  "lower_char c =
     (if (65 \<le> c \<and> c \<le> 90) \<or> (192 \<le> c \<and> c \<le> 214) \<or> (216 \<le> c \<and> c \<le> 222)
      then c + 32 else c)"

definition lower :: "ustring \<Rightarrow> ustring" where
  "lower s = map lower_char s"

type_synonym lexicon = "ustring \<rightharpoonup> nat"

definition lex_get :: "lexicon \<Rightarrow> ustring \<Rightarrow> nat" where
  \<comment> \<open>\<^verbatim>\<open>lexicon.get(word, 0)\<close>\<close>
  "lex_get lexicon w = (case lexicon w of None \<Rightarrow> 0 | Some c \<Rightarrow> c)"

definition COMMON_STANDALONE_SHORT :: "ustring set" where
  "COMMON_STANDALONE_SHORT =
     {u ''di'', u ''ke'', u ''ku'', u ''mu'', u ''ya'', u ''ia'', u ''aku'', u ''kau'',
      u ''dan'', u ''yang'', u ''itu'', u ''ini'', u ''pun''}"

definition DO_NOT_JOIN_TWO :: "ustring set" where
  "DO_NOT_JOIN_TWO =
     {u ''di'', u ''ke'', u ''dari'', u ''dan'', u ''yang'', u ''untuk'', u ''pada'',
      u ''dalam'', u ''dengan'', u ''oleh'', u ''agar'', u ''atau'', u ''tetapi'',
      u ''karena'', u ''sebab''}"

section \<open>The fallback scorer\<close>

text \<open>
  \<^verbatim>\<open>zipf_frequency\<close> comes from the optional package \<^verbatim>\<open>wordfreq\<close>; the module
  variable is \<^verbatim>\<open>None\<close> when the import fails. The model takes it as the parameter
  \<open>zipf\<close>, already applied to the language code.
\<close>

definition token_score :: "(ustring \<Rightarrow> real) option \<Rightarrow> lexicon \<Rightarrow> ustring \<Rightarrow> real" where
  "token_score zipf lexicon token =
     (let lowered = lower token in
      if lowered = [] then - 10
      else let freq = lex_get lexicon lowered in
        if freq > 0 then 6 + log 10 (real (freq + 1)) * 1.8
        else
          (case (case zipf of
                   None \<Rightarrow> None
                 | Some zf \<Rightarrow>
                     (let z = zf lowered in
                      if z \<ge> 5.2 then Some (4 + (z - 5.2))
                      else if z \<ge> 4.6 \<and> length lowered \<ge> 4 then Some (2 + (z - 4.6))
                      else None)) of
             Some r \<Rightarrow> r
           | None \<Rightarrow>
               if length lowered \<le> 2 \<and> lowered \<notin> COMMON_STANDALONE_SHORT then - 6
               else if length lowered = 3 \<and> lowered \<notin> COMMON_STANDALONE_SHORT then - 3.5
               else - 2.5))"

definition fallback_group_score ::
  "(ustring \<Rightarrow> real) option \<Rightarrow> lexicon \<Rightarrow> ustring list \<Rightarrow> real" where
  "fallback_group_score zipf lexicon tokens =
     (if length tokens = 1 then token_score zipf lexicon (tokens ! 0)
      else if length tokens = 2 \<and> lower (tokens ! 0) \<in> DO_NOT_JOIN_TWO \<and>
              lex_get lexicon (lower (concat tokens)) = 0
      then - 9999
      else
        let merged = concat tokens;
            merged_score = token_score zipf lexicon merged;
            split_score = sum_list (map (token_score zipf lexicon) tokens)
        in
          if merged_score + 0.8 * (real (length tokens) - 1) < split_score - 0.2 then - 9999
          else if merged_score < 0.5 then - 9999
          else merged_score + 0.8 * (real (length tokens) - 1))"

text \<open>
  The source reads \<^verbatim>\<open>tokens[0]\<close> after the test for a single token, so an empty group
  raises \<^verbatim>\<open>IndexError\<close>. The dynamic programme only builds groups of at least one
  token; the theorems below speak of groups of one or more tokens.
\<close>

section \<open>The fallback dynamic programme\<close>

fun join :: "ustring \<Rightarrow> ustring list \<Rightarrow> ustring" where
  \<comment> \<open>\<^verbatim>\<open>sep.join(parts)\<close>\<close>
  "join sep [] = []"
| "join sep [x] = x"
| "join sep (x # y # rest) = x @ sep @ join sep (y # rest)"

text \<open>
  The state of the two nested loops of \<^verbatim>\<open>fallback_merge_words\<close> is the pair of arrays
  \<^verbatim>\<open>best_score\<close> (of length \<open>n + 1\<close>) and \<^verbatim>\<open>best_len\<close> (of length \<open>n\<close>).
  \<open>dp_try\<close> is the body of the inner loop for one group length \<open>k\<close>, \<open>dp_row\<close> the
  inner loop for one start index \<open>i\<close>, \<open>dp_fill\<close> the outer loop from \<open>n - 1\<close> down to
  \<open>0\<close>. The slice \<^verbatim>\<open>words[i : i + k]\<close> is \<open>take k (drop i words)\<close>.
\<close>

type_synonym dp_state = "real list \<times> nat list"

definition dp_try ::
  "(ustring \<Rightarrow> real) option \<Rightarrow> lexicon \<Rightarrow> ustring list \<Rightarrow> nat \<Rightarrow> nat \<Rightarrow> dp_state \<Rightarrow> dp_state" where
  "dp_try zipf lexicon words i k st =
     (let best_score = fst st; best_len = snd st;
          chunk = take k (drop i words);
          score = fallback_group_score zipf lexicon chunk
      in if score \<le> - 9990 then st
         else let total = score + best_score ! (i + k)
              in if total > best_score ! i then (best_score[i := total], best_len[i := k])
                 else st)"

definition dp_row ::
  "(ustring \<Rightarrow> real) option \<Rightarrow> lexicon \<Rightarrow> ustring list \<Rightarrow> nat \<Rightarrow> nat \<Rightarrow> dp_state \<Rightarrow> dp_state" where
  "dp_row zipf lexicon words max_group i st =
     (let upper = min max_group (length words - i)
      in fold (dp_try zipf lexicon words i) [1..<Suc upper] st)"

definition dp_init :: "nat \<Rightarrow> dp_state" where
  "dp_init n = ((replicate (n + 1) (- 10000))[n := 0], replicate n 1)"

definition dp_fill ::
  "(ustring \<Rightarrow> real) option \<Rightarrow> lexicon \<Rightarrow> ustring list \<Rightarrow> nat \<Rightarrow> dp_state" where
  "dp_fill zipf lexicon words max_group =
     fold (dp_row zipf lexicon words max_group) (rev [0..<length words])
       (dp_init (length words))"

text \<open>
  The reconstruction loop \<^verbatim>\<open>while i < n: k = best_len[i]; ...; i += k\<close> does not
  terminate when it meets a zero in \<^verbatim>\<open>best_len\<close>, so it is a partial function: \<open>None\<close>
  stands for a loop that never returns.
\<close>

partial_function (option) dp_walk ::
  "ustring list \<Rightarrow> nat list \<Rightarrow> nat \<Rightarrow> ustring list \<Rightarrow> ustring list option" where
  "dp_walk words best_len i out =
     (if i < length words
      then dp_walk words best_len (i + best_len ! i)
             (out @ [concat (take (best_len ! i) (drop i words))])
      else Some out)"

definition fallback_merge_words ::
  "(ustring \<Rightarrow> real) option \<Rightarrow> lexicon \<Rightarrow> ustring list \<Rightarrow> nat \<Rightarrow> ustring option" where
  "fallback_merge_words zipf lexicon words max_group =
     (if length words \<le> 1 then Some (join [32] words)
      else
        (case dp_walk words (snd (dp_fill zipf lexicon words max_group)) 0 [] of
           None \<Rightarrow> None
         | Some out \<Rightarrow> Some (join [32] out)))"

subsection \<open>Partitions of a token run\<close>

text \<open>
  A partition of a run is the list of its group lengths. \<open>chunks\<close> cuts the run
  accordingly, \<open>plan_score\<close> adds up the scores of the groups, and \<open>valid_plan\<close> says
  that the lengths lie in \<open>1..max_group\<close>, cover the run exactly, and that no group
  of two or more tokens is rejected by the scorer.
\<close>

fun chunks :: "nat list \<Rightarrow> 'a list \<Rightarrow> 'a list list" where
  "chunks [] ws = []"
| "chunks (k # ks) ws = take k ws # chunks ks (drop k ws)"

definition plan_score ::
  "(ustring \<Rightarrow> real) option \<Rightarrow> lexicon \<Rightarrow> nat list \<Rightarrow> ustring list \<Rightarrow> real" where
  "plan_score zipf lexicon ks words =
     sum_list (map (fallback_group_score zipf lexicon) (chunks ks words))"

definition valid_plan ::
  "(ustring \<Rightarrow> real) option \<Rightarrow> lexicon \<Rightarrow> nat \<Rightarrow> nat list \<Rightarrow> ustring list \<Rightarrow> bool" where
  "valid_plan zipf lexicon max_group ks words \<longleftrightarrow>
     list_all (\<lambda>k. 1 \<le> k \<and> k \<le> max_group) ks \<and>
     sum_list ks = length words \<and>
     list_all (\<lambda>g. length g = 1 \<or> fallback_group_score zipf lexicon g \<noteq> - 9999)
       (chunks ks words)"

text \<open>
  The partition that the reconstruction loop reads off \<^verbatim>\<open>best_len\<close>, starting at index
  \<open>i\<close> of a run of \<open>n\<close> tokens.
\<close>

function plan_from :: "nat list \<Rightarrow> nat \<Rightarrow> nat \<Rightarrow> nat list" where
  "plan_from best_len n i =
     (if i < n \<and> 0 < best_len ! i then best_len ! i # plan_from best_len n (i + best_len ! i)
      else [])"
  by pat_completeness auto
termination
  by (relation "measure (\<lambda>(best_len, n, i). n - i)") auto

declare plan_from.simps [simp del]

definition chosen_partition ::
  "(ustring \<Rightarrow> real) option \<Rightarrow> lexicon \<Rightarrow> ustring list \<Rightarrow> nat \<Rightarrow> nat list" where
  "chosen_partition zipf lexicon words max_group =
     (if length words \<le> 1 then replicate (length words) 1
      else plan_from (snd (dp_fill zipf lexicon words max_group)) (length words) 0)"

section \<open>The fallback cleaner\<close>







section \<open>Tail trimming\<close>








text \<open>
  The result is an option only because of \<^verbatim>\<open>min\<close>; the function has no other operation
  that can raise. \<^verbatim>\<open>reference_text or ""\<close> is the identity on strings.
\<close>

section \<open>The sequence matcher\<close>

text \<open>
  The script compares letter streams with \<^verbatim>\<open>difflib.SequenceMatcher(a=..., b=...,
  autojunk=False)\<close> of the Python standard library. With no junk test and no automatic
  junk, no element of \<^verbatim>\<open>b\<close> is junk or popular. The definitions below follow the
  library's \<^verbatim>\<open>find_longest_match\<close>, \<^verbatim>\<open>get_matching_blocks\<close> and \<^verbatim>\<open>ratio\<close> for that case.
  A block \<open>(i, j, k)\<close> says that \<open>a[i:i+k] = b[j:j+k]\<close>.
\<close>

type_synonym block = "nat \<times> nat \<times> nat"

text \<open>
  \<^verbatim>\<open>find_longest_match\<close>: \<open>j2len\<close> maps \<open>j\<close> to the length of the longest match that ends
  with \<open>a[i-1]\<close> and \<open>b[j]\<close> (a dictionary read with default 0, here a function). For each
  \<open>i\<close> the indices \<open>j\<close> of \<open>b\<close> with \<open>b[j] = a[i]\<close> in the window are visited in
  increasing order (\<^verbatim>\<open>b2j[a[i]]\<close>); \<open>lm_try\<close> is the body for one \<open>j\<close>, \<open>lm_row\<close> the loop
  for one \<open>i\<close>.
\<close>

definition lm_try ::
  "nat \<Rightarrow> (nat \<Rightarrow> nat) \<Rightarrow> nat \<Rightarrow> (nat \<Rightarrow> nat) \<times> block \<Rightarrow> (nat \<Rightarrow> nat) \<times> block" where
  "lm_try i j2len j st =
     (let newj2len = fst st; best = snd st;
          k = (if j = 0 then 0 else j2len (j - 1)) + 1
      in (newj2len(j := k),
          if k > snd (snd best) then (i + 1 - k, j + 1 - k, k) else best))"

definition lm_row ::
  "'a list \<Rightarrow> 'a list \<Rightarrow> nat \<Rightarrow> nat \<Rightarrow> nat \<Rightarrow> (nat \<Rightarrow> nat) \<times> block \<Rightarrow> (nat \<Rightarrow> nat) \<times> block" where
  "lm_row a b blo bhi i st =
     fold (lm_try i (fst st)) (filter (\<lambda>j. b ! j = a ! i) [blo..<bhi]) (\<lambda>_. 0, snd st)"

definition longest_run :: "'a list \<Rightarrow> 'a list \<Rightarrow> nat \<Rightarrow> nat \<Rightarrow> nat \<Rightarrow> nat \<Rightarrow> block" where
  "longest_run a b alo ahi blo bhi =
     snd (fold (\<lambda>i st. lm_row a b blo bhi i st) [alo..<ahi] (\<lambda>_. 0, (alo, blo, 0)))"

text \<open>
  After the main loop the library extends the match to the left and to the right as long as
  the neighbouring elements are equal (and then by junk, of which there is none).
\<close>

function extend_left :: "'a list \<Rightarrow> 'a list \<Rightarrow> nat \<Rightarrow> nat \<Rightarrow> block \<Rightarrow> block" where
  "extend_left a b alo blo (besti, bestj, bestsize) =
     (if besti > alo \<and> bestj > blo \<and> a ! (besti - 1) = b ! (bestj - 1)
      then extend_left a b alo blo (besti - 1, bestj - 1, bestsize + 1)
      else (besti, bestj, bestsize))"
  by pat_completeness auto
termination
  by (relation "measure (\<lambda>(a, b, alo, blo, besti, bestj, bestsize). besti)") auto

function extend_right :: "'a list \<Rightarrow> 'a list \<Rightarrow> nat \<Rightarrow> nat \<Rightarrow> block \<Rightarrow> block" where
  "extend_right a b ahi bhi (besti, bestj, bestsize) =
     (if besti + bestsize < ahi \<and> bestj + bestsize < bhi \<and>
         a ! (besti + bestsize) = b ! (bestj + bestsize)
      then extend_right a b ahi bhi (besti, bestj, bestsize + 1)
      else (besti, bestj, bestsize))"
  by pat_completeness auto
termination
  by (relation "measure (\<lambda>(a, b, ahi, bhi, besti, bestj, bestsize). ahi - (besti + bestsize))") auto

declare extend_left.simps [simp del] extend_right.simps [simp del]

definition find_longest_match :: "'a list \<Rightarrow> 'a list \<Rightarrow> nat \<Rightarrow> nat \<Rightarrow> nat \<Rightarrow> nat \<Rightarrow> block" where
  "find_longest_match a b alo ahi blo bhi =
     extend_right a b ahi bhi (extend_left a b alo blo (longest_run a b alo ahi blo bhi))"

lemma lm_row_bounds:
  assumes "i < ahi"
    and "\<forall>j. 0 < fst st j \<longrightarrow> blo \<le> j \<and> j < bhi \<and> fst st j \<le> j + 1 - blo \<and> fst st j \<le> i - alo"
    and "alo \<le> i"
    and "case snd st of (bi, bj, bk) \<Rightarrow>
           (bk = 0 \<and> bi = alo \<and> bj = blo) \<or>
           (0 < bk \<and> alo \<le> bi \<and> bi + bk \<le> ahi \<and> blo \<le> bj \<and> bj + bk \<le> bhi)"
  shows "(\<forall>j. 0 < fst (lm_row a b blo bhi i st) j \<longrightarrow>
            blo \<le> j \<and> j < bhi \<and> fst (lm_row a b blo bhi i st) j \<le> j + 1 - blo \<and>
            fst (lm_row a b blo bhi i st) j \<le> Suc i - alo) \<and>
         (case snd (lm_row a b blo bhi i st) of (bi, bj, bk) \<Rightarrow>
           (bk = 0 \<and> bi = alo \<and> bj = blo) \<or>
           (0 < bk \<and> alo \<le> bi \<and> bi + bk \<le> ahi \<and> blo \<le> bj \<and> bj + bk \<le> bhi))"
proof -
  let ?P = "\<lambda>s :: (nat \<Rightarrow> nat) \<times> block.
      (\<forall>j. 0 < fst s j \<longrightarrow> blo \<le> j \<and> j < bhi \<and> fst s j \<le> j + 1 - blo \<and> fst s j \<le> Suc i - alo) \<and>
      (case snd s of (bi, bj, bk) \<Rightarrow>
           (bk = 0 \<and> bi = alo \<and> bj = blo) \<or>
           (0 < bk \<and> alo \<le> bi \<and> bi + bk \<le> ahi \<and> blo \<le> bj \<and> bj + bk \<le> bhi))"
  have step: "?P (lm_try i (fst st) j s)" if s: "?P s" and j: "blo \<le> j" "j < bhi" for s j
  proof -
    define k where "k = (if j = 0 then 0 else fst st (j - 1)) + 1"
    have prev: "blo \<le> j - 1 \<and> fst st (j - 1) \<le> j - blo \<and> fst st (j - 1) \<le> i - alo"
      if "j \<noteq> 0" "fst st (j - 1) \<noteq> 0"
    proof -
      from that have "0 < fst st (j - 1)" by simp
      with assms(2) have "blo \<le> j - 1 \<and> j - 1 < bhi \<and> fst st (j - 1) \<le> j - 1 + 1 - blo \<and>
          fst st (j - 1) \<le> i - alo" by blast
      then show ?thesis using that(1) by simp
    qed
    have k1: "k \<le> j + 1 - blo"
    proof (cases "j = 0 \<or> fst st (j - 1) = 0")
      case True
      then show ?thesis using j by (auto simp: k_def)
    next
      case False
      with prev have "blo \<le> j - 1" "fst st (j - 1) \<le> j - blo" by auto
      then show ?thesis using False by (simp add: k_def)
    qed
    have k2: "k \<le> Suc i - alo"
    proof (cases "j = 0 \<or> fst st (j - 1) = 0")
      case True
      then show ?thesis using assms(3) by (auto simp: k_def)
    next
      case False
      with prev have "fst st (j - 1) \<le> i - alo" by auto
      then show ?thesis using False assms(3) by (simp add: k_def)
    qed
    have k0: "0 < k" by (simp add: k_def)
    obtain bi bj bk where best: "snd s = (bi, bj, bk)" by (cases "snd s")
    have e: "lm_try i (fst st) j s =
        ((fst s)(j := k), if k > bk then (i + 1 - k, j + 1 - k, k) else (bi, bj, bk))"
      by (simp add: lm_try_def Let_def k_def best)
    have a: "blo \<le> j' \<and> j' < bhi \<and> ((fst s)(j := k)) j' \<le> j' + 1 - blo \<and>
        ((fst s)(j := k)) j' \<le> Suc i - alo" if "0 < ((fst s)(j := k)) j'" for j'
      using that s j k1 k2 by (cases "j' = j") auto
    have b: "case (if k > bk then (i + 1 - k, j + 1 - k, k) else (bi, bj, bk)) of
        (bi, bj, bk) \<Rightarrow> (bk = 0 \<and> bi = alo \<and> bj = blo) \<or>
           (0 < bk \<and> alo \<le> bi \<and> bi + bk \<le> ahi \<and> blo \<le> bj \<and> bj + bk \<le> bhi)"
    proof (cases "k > bk")
      case True
      then show ?thesis using k0 k1 k2 j assms(1,3) by auto
    next
      case False
      then show ?thesis using s best by auto
    qed
    show ?thesis unfolding e using a b by simp
  qed
  have fold: "?P (fold (lm_try i (fst st)) js s)"
    if "?P s" "\<forall>j\<in>set js. blo \<le> j \<and> j < bhi" for js s
    using that
  proof (induction js arbitrary: s)
    case Nil
    then show ?case by simp
  next
    case (Cons j js)
    have "?P (lm_try i (fst st) j s)" using Cons.prems by (intro step) auto
    then have "?P (fold (lm_try i (fst st)) js (lm_try i (fst st) j s))"
      using Cons.prems(2) by (intro Cons.IH) auto
    then show ?case by simp
  qed
  have "?P (\<lambda>_. 0, snd st)" using assms(4) by simp
  then have "?P (fold (lm_try i (fst st)) (filter (\<lambda>j. b ! j = a ! i) [blo..<bhi]) (\<lambda>_. 0, snd st))"
    by (intro fold) auto
  then show ?thesis unfolding lm_row_def .
qed

lemma longest_run_bounds:
  "case longest_run a b alo ahi blo bhi of (bi, bj, bk) \<Rightarrow>
     (bk = 0 \<and> bi = alo \<and> bj = blo) \<or>
     (0 < bk \<and> alo \<le> bi \<and> bi + bk \<le> ahi \<and> blo \<le> bj \<and> bj + bk \<le> bhi)"
proof -
  let ?B = "\<lambda>best :: block. case best of (bi, bj, bk) \<Rightarrow>
     (bk = 0 \<and> bi = alo \<and> bj = blo) \<or>
     (0 < bk \<and> alo \<le> bi \<and> bi + bk \<le> ahi \<and> blo \<le> bj \<and> bj + bk \<le> bhi)"
  let ?J = "\<lambda>i (j2len :: nat \<Rightarrow> nat).
     \<forall>j. 0 < j2len j \<longrightarrow> blo \<le> j \<and> j < bhi \<and> j2len j \<le> j + 1 - blo \<and> j2len j \<le> i - alo"
  have "?J (alo + n) (fst (fold (\<lambda>i st. lm_row a b blo bhi i st) [alo..<alo + n] (\<lambda>_. 0, (alo, blo, 0)))) \<and>
        ?B (snd (fold (\<lambda>i st. lm_row a b blo bhi i st) [alo..<alo + n] (\<lambda>_. 0, (alo, blo, 0))))"
    if "alo + n \<le> ahi" for n
    using that
  proof (induction n)
    case 0
    show ?case by simp
  next
    case (Suc n)
    let ?st = "fold (\<lambda>i st. lm_row a b blo bhi i st) [alo..<alo + n] (\<lambda>_. 0, (alo, blo, 0))"
    from Suc have ih: "?J (alo + n) (fst ?st)" "?B (snd ?st)" by simp_all
    have "alo + n < ahi" using Suc.prems by simp
    from lm_row_bounds [OF this ih(1) _ ih(2), of a b]
    have "?J (Suc (alo + n)) (fst (lm_row a b blo bhi (alo + n) ?st)) \<and>
        ?B (snd (lm_row a b blo bhi (alo + n) ?st))" by simp
    then show ?case by simp
  qed
  note main = this
  show ?thesis
  proof (cases "alo \<le> ahi")
    case True
    then have le: "alo + (ahi - alo) \<le> ahi" and eq: "alo + (ahi - alo) = ahi" by simp_all
    from main [OF le] show ?thesis unfolding longest_run_def eq by simp
  next
    case False
    then show ?thesis by (simp add: longest_run_def)
  qed
qed

lemma extend_left_bounds:
  assumes "extend_left a b alo blo (bi, bj, bk) = (i, j, k)"
  shows "i + k = bi + bk \<and> j + k = bj + bk \<and> bk \<le> k \<and>
         (k = bk \<and> i = bi \<and> j = bj \<or> alo \<le> i \<and> blo \<le> j)"
  using assms
proof (induction a b alo blo "(bi, bj, bk)" arbitrary: bi bj bk rule: extend_left.induct)
  case (1 a b alo blo besti bestj bestsize)
  show ?case
  proof (cases "besti > alo \<and> bestj > blo \<and> a ! (besti - 1) = b ! (bestj - 1)")
    case True
    with "1.prems" have "extend_left a b alo blo (besti - 1, bestj - 1, bestsize + 1) = (i, j, k)"
      by (subst (asm) extend_left.simps) simp
    from "1.hyps" [OF True this] True show ?thesis by auto
  next
    case False
    with "1.prems" show ?thesis by (subst (asm) extend_left.simps) auto
  qed
qed

lemma extend_right_bounds:
  assumes "extend_right a b ahi bhi (bi, bj, bk) = (i, j, k)"
  shows "i = bi \<and> j = bj \<and> bk \<le> k \<and> (k = bk \<or> i + k \<le> ahi \<and> j + k \<le> bhi)"
  using assms
proof (induction a b ahi bhi "(bi, bj, bk)" arbitrary: bi bj bk rule: extend_right.induct)
  case (1 a b ahi bhi besti bestj bestsize)
  show ?case
  proof (cases "besti + bestsize < ahi \<and> bestj + bestsize < bhi \<and>
         a ! (besti + bestsize) = b ! (bestj + bestsize)")
    case True
    with "1.prems" have "extend_right a b ahi bhi (besti, bestj, bestsize + 1) = (i, j, k)"
      by (subst (asm) extend_right.simps) simp
    from "1.hyps" [OF True this] True show ?thesis by auto
  next
    case False
    with "1.prems" show ?thesis by (subst (asm) extend_right.simps) auto
  qed
qed

lemma find_longest_match_bounds:
  assumes "find_longest_match a b alo ahi blo bhi = (i, j, k)" "0 < k"
  shows "alo \<le> i \<and> i + k \<le> ahi \<and> blo \<le> j \<and> j + k \<le> bhi"
proof -
  obtain i0 j0 k0 where r: "longest_run a b alo ahi blo bhi = (i0, j0, k0)"
    by (cases "longest_run a b alo ahi blo bhi")
  obtain i1 j1 k1 where l: "extend_left a b alo blo (i0, j0, k0) = (i1, j1, k1)"
    by (cases "extend_left a b alo blo (i0, j0, k0)")
  from assms(1) have e: "extend_right a b ahi bhi (i1, j1, k1) = (i, j, k)"
    by (simp add: find_longest_match_def r l)
  from longest_run_bounds [where a = a and b = b and alo = alo and ahi = ahi and blo = blo and bhi = bhi] r
  have b0: "(k0 = 0 \<and> i0 = alo \<and> j0 = blo) \<or>
     (0 < k0 \<and> alo \<le> i0 \<and> i0 + k0 \<le> ahi \<and> blo \<le> j0 \<and> j0 + k0 \<le> bhi)" by simp
  note b1 = extend_left_bounds [OF l]
  note b2 = extend_right_bounds [OF e]
  from b0 b1 have "alo \<le> i1 \<and> blo \<le> j1 \<and> (k1 = 0 \<or> i1 + k1 \<le> ahi \<and> j1 + k1 \<le> bhi)"
    by auto
  with b2 assms(2) show ?thesis by auto
qed

text \<open>
  \<^verbatim>\<open>get_matching_blocks\<close> takes the longest match of a window and goes on with the
  windows to its left and to its right; the library keeps the windows in a queue and sorts
  the blocks at the end, which gives the blocks of the left window, the match, and the
  blocks of the right window, in this order. Then adjacent blocks are merged and the
  sentinel \<open>(len a, len b, 0)\<close> is appended.
\<close>

function matching_blocks_rec :: "'a list \<Rightarrow> 'a list \<Rightarrow> nat \<Rightarrow> nat \<Rightarrow> nat \<Rightarrow> nat \<Rightarrow> block list" where
  "matching_blocks_rec a b alo ahi blo bhi =
     (case find_longest_match a b alo ahi blo bhi of
        (i, j, k) \<Rightarrow>
          if k = 0 then []
          else (if alo < i \<and> blo < j then matching_blocks_rec a b alo i blo j else []) @
               [(i, j, k)] @
               (if i + k < ahi \<and> j + k < bhi then matching_blocks_rec a b (i + k) ahi (j + k) bhi
                else []))"
  by pat_completeness auto
termination
proof (relation "measure (\<lambda>(a, b, alo, ahi, blo, bhi). ahi - alo)", goal_cases)
  case 1
  show ?case by simp
next
  case (2 a b alo ahi blo bhi i y j k)
  then have f: "find_longest_match a b alo ahi blo bhi = (i, j, k)" "0 < k" by simp_all
  from find_longest_match_bounds [OF f] have "i + k \<le> ahi" by simp
  moreover from 2 have "alo < i" by simp
  ultimately show ?case using f(2) by simp
next
  case (3 a b alo ahi blo bhi i y j k)
  then have f: "find_longest_match a b alo ahi blo bhi = (i, j, k)" "0 < k" by simp_all
  from find_longest_match_bounds [OF f] have "alo \<le> i" by simp
  moreover from 3 have "i + k < ahi" by simp
  ultimately show ?case using f(2) by simp
qed

declare matching_blocks_rec.simps [simp del]

definition collapse_step :: "block \<Rightarrow> block \<times> block list \<Rightarrow> block \<times> block list" where
  "collapse_step blk st =
     (case (blk, st) of
        ((i2, j2, k2), ((i1, j1, k1), non_adjacent)) \<Rightarrow>
          if i1 + k1 = i2 \<and> j1 + k1 = j2 then ((i1, j1, k1 + k2), non_adjacent)
          else ((i2, j2, k2), if k1 \<noteq> 0 then non_adjacent @ [(i1, j1, k1)] else non_adjacent))"

definition get_matching_blocks :: "'a list \<Rightarrow> 'a list \<Rightarrow> block list" where
  "get_matching_blocks a b =
     (case fold collapse_step (matching_blocks_rec a b 0 (length a) 0 (length b)) ((0, 0, 0), []) of
        ((i1, j1, k1), non_adjacent) \<Rightarrow>
          (if k1 \<noteq> 0 then non_adjacent @ [(i1, j1, k1)] else non_adjacent) @
          [(length a, length b, 0)])"

definition ratio :: "'a list \<Rightarrow> 'a list \<Rightarrow> real" where
  "ratio a b =
     (let matches = sum_list (map (\<lambda>(i, j, k). k) (get_matching_blocks a b));
          total = length a + length b
      in if total \<noteq> 0 then 2 * real matches / real total else 1)"

definition sequence_ratio :: "ustring \<Rightarrow> ustring \<Rightarrow> real" where
  "sequence_ratio a b = (if a = [] \<or> b = [] then 0 else ratio a b)"

section \<open>Choosing the reference verse\<close>

text \<open>
  A reference row (\<^verbatim>\<open>RowRef\<close>); its field \<^verbatim>\<open>text\<close> is called \<open>rtext\<close> here. The mode
  strings \<^verbatim>\<open>"same"\<close>, \<^verbatim>\<open>"neighbor"\<close> and \<^verbatim>\<open>"none"\<close> are the three modes.
\<close>

record RowRef =
  verse :: int
  rtext :: ustring
  normalized :: ustring

datatype mode = Same | Neighbor | NoRef

text \<open>
  \<open>neighbor_step\<close> is the body of the loop over \<^verbatim>\<open>range(low, high + 1)\<close>, on the state
  \<^verbatim>\<open>(best_ref, best_mode, best_ratio)\<close>.
\<close>

definition neighbor_step ::
  "ustring \<Rightarrow> (int \<rightharpoonup> RowRef) \<Rightarrow> int \<Rightarrow> int \<Rightarrow> RowRef option \<times> mode \<times> real \<Rightarrow>
   RowRef option \<times> mode \<times> real" where
  "neighbor_step tb2_norm ref_rows verse_no candidate_verse st =
     (if candidate_verse = verse_no then st
      else
        (case ref_rows candidate_verse of
           None \<Rightarrow> st
         | Some candidate \<Rightarrow>
             let r = sequence_ratio tb2_norm (normalized candidate)
             in if r > snd (snd st) then (Some candidate, Neighbor, r) else st))"

definition choose_reference ::
  "ustring \<Rightarrow> (int \<rightharpoonup> RowRef) \<Rightarrow> int \<Rightarrow> real \<Rightarrow> real \<Rightarrow> int \<Rightarrow> RowRef option \<times> mode \<times> real" where
  "choose_reference tb2_norm ref_rows verse_no min_direct_ratio min_neighbor_ratio neighbor_window =
     (let direct_ref = ref_rows verse_no;
          direct_ratio =
            (case direct_ref of None \<Rightarrow> 0 | Some d \<Rightarrow> sequence_ratio tb2_norm (normalized d))
      in
        if direct_ratio \<ge> min_direct_ratio \<and> direct_ref \<noteq> None
        then (direct_ref, Same, direct_ratio)
        else
          let low = max 1 (verse_no - neighbor_window);
              high = verse_no + neighbor_window;
              best = fold (neighbor_step tb2_norm ref_rows verse_no) [low..high]
                       (direct_ref, Same, direct_ratio);
              best_ref = fst best; best_mode = fst (snd best); best_ratio = snd (snd best)
          in
            if best_ref = None then (None, NoRef, best_ratio)
            else if best_mode = Neighbor \<and> best_ratio \<ge> min_neighbor_ratio
            then (best_ref, best_mode, best_ratio)
            else (None, NoRef, best_ratio))"

section \<open>Invariants of the dynamic programme\<close>

definition row_post ::
  "(ustring list \<Rightarrow> real) \<Rightarrow> ustring list \<Rightarrow> nat \<Rightarrow> nat \<Rightarrow> dp_state \<Rightarrow> dp_state \<Rightarrow> bool" where
  "row_post g W i m st st' \<longleftrightarrow>
     length (fst st') = length (fst st) \<and> length (snd st') = length (snd st) \<and>
     (\<forall>j. j \<noteq> i \<longrightarrow> fst st' ! j = fst st ! j \<and> snd st' ! j = snd st ! j) \<and>
     fst st ! i \<le> fst st' ! i \<and>
     (\<forall>k. 1 \<le> k \<and> k \<le> m \<and> \<not> g (take k (drop i W)) \<le> - 9990 \<longrightarrow>
          g (take k (drop i W)) + fst st ! (i + k) \<le> fst st' ! i) \<and>
     ((fst st' ! i = fst st ! i \<and> snd st' ! i = snd st ! i) \<or>
      (1 \<le> snd st' ! i \<and> snd st' ! i \<le> m \<and>
       \<not> g (take (snd st' ! i) (drop i W)) \<le> - 9990 \<and>
       fst st' ! i = g (take (snd st' ! i) (drop i W)) + fst st ! (i + snd st' ! i)))"

definition dp_struct :: "nat \<Rightarrow> nat \<Rightarrow> dp_state \<Rightarrow> bool" where
  "dp_struct n i st \<longleftrightarrow>
     length (fst st) = n + 1 \<and> length (snd st) = n \<and> fst st ! n = 0 \<and>
     (\<forall>j<i. fst st ! j = - 10000) \<and>
     (\<forall>j<n. 1 \<le> snd st ! j \<and> j + snd st ! j \<le> n)"

definition dp_opt ::
  "(ustring \<Rightarrow> real) option \<Rightarrow> lexicon \<Rightarrow> nat \<Rightarrow> ustring list \<Rightarrow> nat \<Rightarrow> dp_state \<Rightarrow> bool" where
  "dp_opt zipf lexicon mg W i st \<longleftrightarrow>
     (\<forall>j. i \<le> j \<and> j \<le> length W \<longrightarrow>
        fst st ! j = plan_score zipf lexicon (plan_from (snd st) (length W) j) (drop j W) \<and>
        valid_plan zipf lexicon mg (plan_from (snd st) (length W) j) (drop j W) \<and>
        (\<forall>ks. valid_plan zipf lexicon mg ks (drop j W) \<longrightarrow>
              plan_score zipf lexicon ks (drop j W) \<le> fst st ! j) \<and>
        - 10 * real (length W - j) \<le> fst st ! j)"

definition ordinary_group_score ::
  "(ustring \<Rightarrow> real) option \<Rightarrow> lexicon \<Rightarrow> ustring list \<Rightarrow> real" where
  "ordinary_group_score zipf lexicon tokens =
     (let merged_score = token_score zipf lexicon (concat tokens);
          split_score = sum_list (map (token_score zipf lexicon) tokens);
          bonus = 0.8 * (real (length tokens) - 1)
      in if merged_score + bonus < split_score - 0.2 \<or> merged_score < 0.5 then - 9999
         else merged_score + bonus)"

definition dp_sound ::
  "(ustring \<Rightarrow> real) option \<Rightarrow> lexicon \<Rightarrow> ustring list \<Rightarrow> dp_state \<Rightarrow> bool" where
  "dp_sound zipf lexicon W st \<longleftrightarrow>
     (\<forall>j<length W. snd st ! j = 1 \<or>
        \<not> fallback_group_score zipf lexicon (take (snd st ! j) (drop j W)) \<le> - 9990)"

text \<open>A run of 1668 tokens, its lexicon, and a partition that merges the first two tokens.\<close>

definition long_lexicon :: lexicon where
  "long_lexicon = [u ''x'' \<mapsto> 9999, u ''xq'' \<mapsto> 9]"

definition long_m :: nat where
  "long_m = 1667"

definition long_n :: nat where
  "long_n = Suc long_m"

definition long_run :: "ustring list" where
  "long_run = u ''x'' # replicate long_m (u ''q'')"

definition rival_plan :: "nat list" where
  "rival_plan = 2 # replicate (long_m - 1) 1"

definition q_inv :: "nat \<Rightarrow> dp_state \<Rightarrow> bool" where
  "q_inv i st \<longleftrightarrow>
     dp_struct long_n i st \<and> snd st = replicate long_n 1 \<and>
     (\<forall>j. i \<le> j \<and> j \<le> long_n \<longrightarrow> fst st ! j = max (- 10000) (- 6 * real (long_n - j)))"


definition kepada_lexicon :: lexicon where "kepada_lexicon = [u ''kepada'' \<mapsto> 9]"

definition mana_zipf :: "ustring \<Rightarrow> real" where
  "mana_zipf w = (if w = u ''dimana'' then 6 else 0)"

definition mana_lexicon :: lexicon where "mana_lexicon = [u ''mana'' \<mapsto> 9]"

text \<open>Two reference rows for verse 3 and its neighbour, verse 4.\<close>

definition demo_rows :: "int \<rightharpoonup> RowRef" where
  "demo_rows = [3 \<mapsto> \<lparr>verse = 3, rtext = u ''ab cx'', normalized = u ''abcx''\<rparr>,
                4 \<mapsto> \<lparr>verse = 4, rtext = u ''ab cd'', normalized = u ''abcd''\<rparr>]"




section \<open>The never-merge rule of the scorer\<close>

lemma do_not_join_two_rejected:
  assumes "length tokens = 2"
    and "lower (tokens ! 0) \<in> DO_NOT_JOIN_TWO"
    and "lex_get lexicon (lower (concat tokens)) = 0"
  shows "fallback_group_score zipf lexicon tokens = - 9999"
  using assms by (simp add: fallback_group_score_def)

section \<open>Correctness of the dynamic programme\<close>

lemma token_score_ge: "- 10 \<le> token_score zipf lexicon t"
proof -
  have "0 \<le> log 10 (real (lex_get lexicon (lower t) + 1))"
    by (rule zero_le_log_cancel_iff [THEN iffD2]) auto
  then have "0 \<le> log 10 (real (lex_get lexicon (lower t) + 1)) * 1.8" by simp
  then show ?thesis
    by (auto simp: token_score_def Let_def split: option.splits)
qed

lemma group_score_multi:
  assumes "length g \<noteq> 1"
  shows "fallback_group_score zipf lexicon g = - 9999 \<or> 13 / 10 \<le> fallback_group_score zipf lexicon g"
proof (cases "length g = 0")
  case True
  then show ?thesis
    by (simp add: fallback_group_score_def token_score_def lower_def)
next
  case False
  with assms have "2 \<le> length g" by arith
  then have r: "2 \<le> real (length g)" by simp
  define x where "x = token_score zipf lexicon (concat g)"
  define y where "y = sum_list (map (token_score zipf lexicon) g)"
  have "fallback_group_score zipf lexicon g = - 9999 \<or>
        (\<not> x < 0.5 \<and> fallback_group_score zipf lexicon g = x + 0.8 * (real (length g) - 1))"
    using assms unfolding fallback_group_score_def Let_def x_def y_def by (simp only: if_False split: if_splits) auto
  then show ?thesis
  proof
    assume "fallback_group_score zipf lexicon g = - 9999"
    then show ?thesis by simp
  next
    assume a: "\<not> x < 0.5 \<and> fallback_group_score zipf lexicon g = x + 0.8 * (real (length g) - 1)"
    then have "0.5 \<le> x" by simp
    then have "13 / 10 \<le> x + 0.8 * (real (length g) - 1)" using r by argo
    with a show ?thesis by simp
  qed
qed

lemma group_score_single: "length g = 1 \<Longrightarrow> - 10 \<le> fallback_group_score zipf lexicon g"
  by (simp add: fallback_group_score_def token_score_ge)

lemma skipped_iff_rejected:
  "fallback_group_score zipf lexicon g \<le> - 9990 \<longleftrightarrow>
     length g \<noteq> 1 \<and> fallback_group_score zipf lexicon g = - 9999"
  using group_score_multi [of g zipf lexicon] group_score_single [of g zipf lexicon]
  by (cases "length g = 1") auto

lemma dp_try_fold:
  assumes "i < length (fst st)" "i < length (snd st)"
  shows "row_post (fallback_group_score zipf lexicon) W i m st
           (fold (dp_try zipf lexicon W i) [1..<Suc m] st)"
proof (induction m)
  case 0
  show ?case by (simp add: row_post_def)
next
  case (Suc m)
  define st1 where "st1 = fold (dp_try zipf lexicon W i) [1..<Suc m] st"
  let ?g = "fallback_group_score zipf lexicon"
  have step: "fold (dp_try zipf lexicon W i) [1..<Suc (Suc m)] st = dp_try zipf lexicon W i (Suc m) st1"
    by (simp add: st1_def)
  from Suc have ih: "row_post ?g W i m st st1" by (simp add: st1_def)
  have rd: "fst st1 ! (i + Suc m) = fst st ! (i + Suc m)"
    using ih by (simp add: row_post_def)
  have len: "i < length (fst st1)" "i < length (snd st1)"
    using ih assms by (simp_all add: row_post_def)
  show ?case
  proof (cases "?g (take (Suc m) (drop i W)) \<le> - 9990")
    case True
    then have "dp_try zipf lexicon W i (Suc m) st1 = st1"
      by (simp add: dp_try_def)
    moreover have "row_post ?g W i (Suc m) st st1"
      using ih True unfolding row_post_def
      by (metis le_Suc_eq)
    ultimately show ?thesis by (simp only: step)
  next
    case False
    define total where "total = ?g (take (Suc m) (drop i W)) + fst st ! (i + Suc m)"
    show ?thesis
    proof (cases "total > fst st1 ! i")
      case True
      then have eq: "dp_try zipf lexicon W i (Suc m) st1 = ((fst st1)[i := total], (snd st1)[i := Suc m])"
        using False rd by (simp add: dp_try_def total_def Let_def)
      have "row_post ?g W i (Suc m) st ((fst st1)[i := total], (snd st1)[i := Suc m])"
        unfolding row_post_def
      proof (intro conjI allI impI)
        fix k assume k: "1 \<le> k \<and> k \<le> Suc m \<and> \<not> ?g (take k (drop i W)) \<le> - 9990"
        show "?g (take k (drop i W)) + fst st ! (i + k)
            \<le> fst ((fst st1)[i := total], (snd st1)[i := Suc m]) ! i"
        proof (cases "k = Suc m")
          case True
          then show ?thesis using len by (simp add: total_def)
        next
          case False
          with k have "k \<le> m" by simp
          with k ih have "?g (take k (drop i W)) + fst st ! (i + k) \<le> fst st1 ! i"
            by (simp add: row_post_def)
          with \<open>total > fst st1 ! i\<close> show ?thesis using len by simp
        qed
      next
        show "fst ((fst st1)[i := total], (snd st1)[i := Suc m]) ! i = fst st ! i \<and>
    snd ((fst st1)[i := total], (snd st1)[i := Suc m]) ! i = snd st ! i \<or>
    1 \<le> snd ((fst st1)[i := total], (snd st1)[i := Suc m]) ! i \<and>
    snd ((fst st1)[i := total], (snd st1)[i := Suc m]) ! i \<le> Suc m \<and>
    \<not> ?g (take (snd ((fst st1)[i := total], (snd st1)[i := Suc m]) ! i) (drop i W)) \<le> - 9990 \<and>
    fst ((fst st1)[i := total], (snd st1)[i := Suc m]) ! i =
    ?g (take (snd ((fst st1)[i := total], (snd st1)[i := Suc m]) ! i) (drop i W)) +
    fst st ! (i + snd ((fst st1)[i := total], (snd st1)[i := Suc m]) ! i)"
          using len \<open>\<not> ?g (take (Suc m) (drop i W)) \<le> - 9990\<close> by (simp add: total_def)
      qed (use ih len True in \<open>auto simp: row_post_def\<close>)
      then show ?thesis by (simp only: step eq)
    next
      case nt: False
      then have eq: "dp_try zipf lexicon W i (Suc m) st1 = st1"
        using False rd by (simp add: dp_try_def total_def Let_def)
      have "row_post ?g W i (Suc m) st st1"
        unfolding row_post_def
      proof (intro conjI allI impI)
        fix k assume k: "1 \<le> k \<and> k \<le> Suc m \<and> \<not> ?g (take k (drop i W)) \<le> - 9990"
        show "?g (take k (drop i W)) + fst st ! (i + k) \<le> fst st1 ! i"
        proof (cases "k = Suc m")
          case True
          then show ?thesis using nt by (simp add: total_def)
        next
          case False
          with k have "k \<le> m" by simp
          with k ih show ?thesis by (simp add: row_post_def)
        qed
      next
        show "fst st1 ! i = fst st ! i \<and> snd st1 ! i = snd st ! i \<or>
           1 \<le> snd st1 ! i \<and> snd st1 ! i \<le> Suc m \<and>
           \<not> ?g (take (snd st1 ! i) (drop i W)) \<le> - 9990 \<and>
           fst st1 ! i = ?g (take (snd st1 ! i) (drop i W)) + fst st ! (i + snd st1 ! i)"
          using ih unfolding row_post_def by (metis le_Suc_eq)
      qed (use ih in \<open>auto simp: row_post_def\<close>)
      then show ?thesis by (simp only: step eq)
    qed
  qed
qed

lemma fold_rev_upt:
  assumes "i < n"
  shows "fold f (rev [i..<n]) s = f i (fold f (rev [Suc i..<n]) s)"
  using assms by (simp add: upt_conv_Cons)

lemma plan_from_cong:
  assumes "\<forall>l. j \<le> l \<longrightarrow> bl ! l = bl' ! l"
  shows "plan_from bl n j = plan_from bl' n j"
  using assms
proof (induction bl n j rule: plan_from.induct)
  case (1 bl n i)
  have e: "bl ! i = bl' ! i" using "1.prems" by simp
  show ?case
  proof (cases "i < n \<and> 0 < bl ! i")
    case True
    have "plan_from bl n (i + bl ! i) = plan_from bl' n (i + bl ! i)"
      using True "1.prems" by (intro "1.IH") auto
    then show ?thesis using True e
      by (subst plan_from.simps, subst (2) plan_from.simps) simp
  next
    case False
    then show ?thesis using e
      by (subst plan_from.simps, subst (2) plan_from.simps) auto
  qed
qed

lemma dp_struct_init: "dp_struct n n (dp_init n)"
  by (auto simp: dp_struct_def dp_init_def nth_list_update simp del: replicate_Suc replicate.simps)

lemma dp_row_post:
  assumes "dp_struct (length W) (Suc i) st" "i < length W"
  shows "row_post (fallback_group_score zipf lexicon) W i (min mg (length W - i)) st
           (dp_row zipf lexicon W mg i st)"
  unfolding dp_row_def Let_def
  using assms by (intro dp_try_fold) (auto simp: dp_struct_def)

lemma dp_struct_row:
  assumes "dp_struct (length W) (Suc i) st" "i < length W"
  shows "dp_struct (length W) i (dp_row zipf lexicon W mg i st)"
proof -
  let ?st' = "dp_row zipf lexicon W mg i st"
  let ?n = "length W"
  from dp_row_post [OF assms] have rp:
    "row_post (fallback_group_score zipf lexicon) W i (min mg (?n - i)) st ?st'" .
  have a: "length (fst ?st') = ?n + 1" "length (snd ?st') = ?n" "fst ?st' ! ?n = 0"
    using rp assms by (auto simp: row_post_def dp_struct_def)
  have b: "\<forall>j<i. fst ?st' ! j = - 10000"
    using rp assms by (auto simp: row_post_def dp_struct_def)
  have c: "1 \<le> snd ?st' ! j \<and> j + snd ?st' ! j \<le> ?n" if "j < ?n" for j
  proof (cases "j = i")
    case False
    then show ?thesis using rp assms that by (auto simp: row_post_def dp_struct_def)
  next
    case True
    from rp have "(snd ?st' ! i = snd st ! i) \<or>
        (1 \<le> snd ?st' ! i \<and> snd ?st' ! i \<le> min mg (?n - i))"
      unfolding row_post_def by blast
    then show ?thesis using assms True by (auto simp: dp_struct_def)
  qed
  show ?thesis unfolding dp_struct_def using a b c by blast
qed

lemma dp_struct_rows:
  assumes "i \<le> length W"
  shows "dp_struct (length W) i
           (fold (dp_row zipf lexicon W mg) (rev [i..<length W]) (dp_init (length W)))"
  using assms
proof (induction "length W - i" arbitrary: i)
  case 0
  then show ?case by (simp add: dp_struct_init)
next
  case (Suc d)
  then have "i < length W" "d = length W - Suc i" "Suc i \<le> length W" by auto
  with Suc.hyps(1) [of "Suc i"] show ?case
    by (simp only: fold_rev_upt dp_struct_row)
qed

lemma plan_score_Nil [simp]: "plan_score zipf lexicon [] ws = 0"
  by (simp add: plan_score_def)

lemma plan_score_Cons:
  "plan_score zipf lexicon (k # ks) (drop i W) =
     fallback_group_score zipf lexicon (take k (drop i W)) + plan_score zipf lexicon ks (drop (i + k) W)"
  by (simp add: plan_score_def add.commute)

lemma valid_plan_Nil [simp]: "valid_plan zipf lexicon mg [] ws \<longleftrightarrow> ws = []"
  by (auto simp: valid_plan_def)

lemma valid_plan_Cons:
  "valid_plan zipf lexicon mg (k # ks) (drop i W) \<longleftrightarrow>
     1 \<le> k \<and> k \<le> mg \<and> i + k \<le> length W \<and>
     \<not> fallback_group_score zipf lexicon (take k (drop i W)) \<le> - 9990 \<and>
     valid_plan zipf lexicon mg ks (drop (i + k) W)"
proof -
  have "length (take k (drop i W)) = k" if "i + k \<le> length W"
    using that by simp
  then have g: "(length (take k (drop i W)) = 1 \<or>
             fallback_group_score zipf lexicon (take k (drop i W)) \<noteq> - 9999) \<longleftrightarrow>
         \<not> fallback_group_score zipf lexicon (take k (drop i W)) \<le> - 9990"
    by (simp add: skipped_iff_rejected)
  have s: "k + sum_list ks = length W - i \<longleftrightarrow> i + k \<le> length W \<and> sum_list ks = length W - (i + k)"
    if "1 \<le> k" using that by auto
  show ?thesis
    unfolding valid_plan_def using g s
    by (auto simp: add.commute)
qed

lemma valid_plan_empty_run:
  assumes "valid_plan zipf lexicon mg ks []"
  shows "ks = []"
proof (cases ks)
  case (Cons k ks')
  with assms show ?thesis by (auto simp: valid_plan_def)
qed simp

lemma dp_opt_init: "dp_opt zipf lexicon mg W (length W) (dp_init (length W))"
proof -
  have "fst (dp_init (length W)) ! length W = 0"
    by (simp add: dp_init_def del: replicate_Suc replicate.simps)
  moreover have "plan_from bl (length W) (length W) = []" for bl
    by (subst plan_from.simps) simp
  ultimately show ?thesis
    unfolding dp_opt_def by (auto dest: valid_plan_empty_run)
qed

lemma dp_opt_row:
  assumes st: "dp_struct (length W) (Suc i) st"
    and opt: "dp_opt zipf lexicon mg W (Suc i) st"
    and i: "i < length W" and mg: "1 \<le> mg" and n: "length W < 1000"
  shows "dp_opt zipf lexicon mg W i (dp_row zipf lexicon W mg i st)"
proof -
  let ?n = "length W"
  let ?g = "fallback_group_score zipf lexicon"
  let ?m = "min mg (?n - i)"
  define st' where "st' = dp_row zipf lexicon W mg i st"
  from dp_row_post [OF st i] have rp: "row_post ?g W i ?m st st'"
    by (simp add: st'_def)
  have same: "fst st' ! j = fst st ! j" "snd st' ! j = snd st ! j" if "j \<noteq> i" for j
    using rp that by (simp_all add: row_post_def)
  have plan_same: "plan_from (snd st') ?n j = plan_from (snd st) ?n j" if "i < j" for j
    using that by (intro plan_from_cong) (auto simp: same)
  have old: "fst st ! j = plan_score zipf lexicon (plan_from (snd st) ?n j) (drop j W) \<and>
        valid_plan zipf lexicon mg (plan_from (snd st) ?n j) (drop j W) \<and>
        (\<forall>ks. valid_plan zipf lexicon mg ks (drop j W) \<longrightarrow>
              plan_score zipf lexicon ks (drop j W) \<le> fst st ! j) \<and>
        - 10 * real (?n - j) \<le> fst st ! j" if "i < j" "j \<le> ?n" for j
  proof -
    from that have "Suc i \<le> j \<and> j \<le> ?n" by simp
    from opt [unfolded dp_opt_def, rule_format, OF this] show ?thesis .
  qed
  have old1: "fst st ! j = plan_score zipf lexicon (plan_from (snd st) ?n j) (drop j W)"
    if "i < j" "j \<le> ?n" for j
    using old [OF that] by (elim conjE)
  have old2: "valid_plan zipf lexicon mg (plan_from (snd st) ?n j) (drop j W)"
    if "i < j" "j \<le> ?n" for j
    using old [OF that] by (elim conjE)
  have old3: "plan_score zipf lexicon ks (drop j W) \<le> fst st ! j"
    if "i < j" "j \<le> ?n" "valid_plan zipf lexicon mg ks (drop j W)" for j ks
    using old [OF that(1,2)] that(3) by blast
  have old4: "- 10 * real (?n - j) \<le> fst st ! j"
    if "i < j" "j \<le> ?n" for j
    using old [OF that] by (elim conjE)
  have init: "fst st ! i = - 10000"
    using st by (simp add: dp_struct_def)
  have up: "?g (take k (drop i W)) + fst st ! (i + k) \<le> fst st' ! i"
    if "1 \<le> k" "k \<le> ?m" "\<not> ?g (take k (drop i W)) \<le> - 9990" for k
    using rp that unfolding row_post_def by blast
  have one: "- 10 \<le> ?g (take 1 (drop i W))"
    using i by (intro group_score_single) simp
  have "?g (take 1 (drop i W)) + fst st ! (i + 1) \<le> fst st' ! i"
    using one i mg by (intro up) auto
  moreover have "- 10 * real (?n - (i + 1)) \<le> fst st ! (i + 1)"
    using i by (intro old4) simp_all
  moreover have "real (?n - i) = real (?n - (i + 1)) + 1"
    using i by (simp add: of_nat_diff)
  ultimately have low: "- 10 * real (?n - i) \<le> fst st' ! i"
    using one by argo
  have "real (?n - i) < 1000" using n by simp
  with low have "fst st' ! i \<noteq> - 10000" by argo
  then have ne: "fst st' ! i \<noteq> fst st ! i" by (simp add: init)
  from rp have "(fst st' ! i = fst st ! i \<and> snd st' ! i = snd st ! i) \<or>
      (1 \<le> snd st' ! i \<and> snd st' ! i \<le> ?m \<and>
       \<not> ?g (take (snd st' ! i) (drop i W)) \<le> - 9990 \<and>
       fst st' ! i = ?g (take (snd st' ! i) (drop i W)) + fst st ! (i + snd st' ! i))"
    unfolding row_post_def by (elim conjE)
  with ne have att: "1 \<le> snd st' ! i \<and> snd st' ! i \<le> ?m \<and>
       \<not> ?g (take (snd st' ! i) (drop i W)) \<le> - 9990 \<and>
       fst st' ! i = ?g (take (snd st' ! i) (drop i W)) + fst st ! (i + snd st' ! i)"
    by blast
  define k' where "k' = snd st' ! i"
  have kb: "1 \<le> k'" "k' \<le> mg" "i + k' \<le> ?n"
    using att i by (auto simp: k'_def)
  have kg: "\<not> ?g (take k' (drop i W)) \<le> - 9990"
    using att by (simp add: k'_def)
  have ke: "fst st' ! i = ?g (take k' (drop i W)) + fst st ! (i + k')"
    using att unfolding k'_def by (elim conjE)
  have lt: "i < i + k'" using kb by simp
  have pf: "plan_from (snd st') ?n i = k' # plan_from (snd st) ?n (i + k')"
    using i kb(1) plan_same [OF lt]
    by (subst plan_from.simps) (simp add: k'_def)
  have o1: "fst st ! (i + k') = plan_score zipf lexicon (plan_from (snd st) ?n (i + k')) (drop (i + k') W)"
    by (rule old1 [OF lt kb(3)])
  have o2: "valid_plan zipf lexicon mg (plan_from (snd st) ?n (i + k')) (drop (i + k') W)"
    by (rule old2 [OF lt kb(3)])
  have c1: "fst st' ! i = plan_score zipf lexicon (plan_from (snd st') ?n i) (drop i W)"
    unfolding pf plan_score_Cons ke o1 ..
  have c2: "valid_plan zipf lexicon mg (plan_from (snd st') ?n i) (drop i W)"
    unfolding pf valid_plan_Cons using kb kg o2 by (intro conjI)
  have c3: "plan_score zipf lexicon ks (drop i W) \<le> fst st' ! i"
    if v: "valid_plan zipf lexicon mg ks (drop i W)" for ks
  proof (cases ks)
    case Nil
    with v i show ?thesis by simp
  next
    case (Cons k ks')
    with v have vk: "1 \<le> k" "k \<le> mg" "i + k \<le> ?n"
      "\<not> ?g (take k (drop i W)) \<le> - 9990" "valid_plan zipf lexicon mg ks' (drop (i + k) W)"
      by (simp_all add: valid_plan_Cons)
    then have "plan_score zipf lexicon ks' (drop (i + k) W) \<le> fst st ! (i + k)"
      by (intro old3) simp_all
    moreover have "?g (take k (drop i W)) + fst st ! (i + k) \<le> fst st' ! i"
      using vk by (intro up) auto
    ultimately show ?thesis by (simp add: Cons plan_score_Cons)
  qed
  have "fst st' ! j = plan_score zipf lexicon (plan_from (snd st') ?n j) (drop j W) \<and>
        valid_plan zipf lexicon mg (plan_from (snd st') ?n j) (drop j W) \<and>
        (\<forall>ks. valid_plan zipf lexicon mg ks (drop j W) \<longrightarrow>
              plan_score zipf lexicon ks (drop j W) \<le> fst st' ! j) \<and>
        - 10 * real (?n - j) \<le> fst st' ! j" if "i \<le> j" "j \<le> ?n" for j
  proof (cases "j = i")
    case True
    show ?thesis unfolding True using c1 c2 c3 low by simp
  next
    case False
    with that have lt: "i < j" by simp
    show ?thesis unfolding same(1) [OF False] plan_same [OF lt]
      by (intro conjI allI impI old1 old2 old4 lt that(2)) (erule old3 [OF lt that(2)])
  qed
  then show ?thesis unfolding dp_opt_def st'_def [symmetric] by blast
qed

lemma dp_opt_rows:
  assumes "i \<le> length W" "1 \<le> mg" "length W < 1000"
  shows "dp_opt zipf lexicon mg W i
           (fold (dp_row zipf lexicon W mg) (rev [i..<length W]) (dp_init (length W)))"
  using assms(1)
proof (induction "length W - i" arbitrary: i)
  case 0
  then have e: "i = length W" using assms(1) by simp
  show ?case unfolding e by (simp add: dp_opt_init)
next
  case (Suc d)
  then have i: "i < length W" "d = length W - Suc i" "Suc i \<le> length W" by auto
  show ?case
    unfolding fold_rev_upt [OF i(1)]
    using i assms(2,3) Suc.hyps(1) [of "Suc i"]
    by (intro dp_opt_row dp_struct_rows) auto
qed

lemma plan_from_end [simp]: "plan_from bl n n = []"
  by (subst plan_from.simps) simp

lemma plan_from_step:
  assumes "i < n" "0 < bl ! i"
  shows "plan_from bl n i = bl ! i # plan_from bl n (i + bl ! i)"
  using assms by (subst plan_from.simps) simp

lemma dp_walk_plan:
  assumes bl: "\<forall>j<length W. 1 \<le> bl ! j \<and> j + bl ! j \<le> length W" and i: "i \<le> length W"
  shows "dp_walk W bl i out =
           Some (out @ map concat (chunks (plan_from bl (length W) i) (drop i W)))"
  using i
proof (induction "length W - i" arbitrary: i out rule: less_induct)
  case less
  show ?case
  proof (cases "i < length W")
    case False
    with less.prems have "i = length W" by simp
    then show ?thesis by (subst dp_walk.simps) simp
  next
    case True
    with bl have k: "1 \<le> bl ! i" "i + bl ! i \<le> length W" by auto
    have "dp_walk W bl (i + bl ! i) (out @ [concat (take (bl ! i) (drop i W))]) =
        Some ((out @ [concat (take (bl ! i) (drop i W))]) @
          map concat (chunks (plan_from bl (length W) (i + bl ! i)) (drop (i + bl ! i) W)))"
      using k True by (intro less.hyps) auto
    then show ?thesis
      using True k by (subst dp_walk.simps) (simp add: plan_from_step add.commute)
  qed
qed




lemma dp_fill_struct: "dp_struct (length W) 0 (dp_fill zipf lexicon W mg)"
  unfolding dp_fill_def by (rule dp_struct_rows) simp

lemma merge_words_plan:
  "fallback_merge_words zipf lexicon W mg =
     Some (join [32] (map concat (chunks (chosen_partition zipf lexicon W mg) W)))"
proof (cases "length W \<le> 1")
  case True
  then consider "W = []" | w where "W = [w]"
    by (cases W) (auto simp: le_Suc_eq)
  then show ?thesis
    by cases (simp_all add: fallback_merge_words_def chosen_partition_def)
next
  case False
  let ?bl = "snd (dp_fill zipf lexicon W mg)"
  have "\<forall>j<length W. 1 \<le> ?bl ! j \<and> j + ?bl ! j \<le> length W"
    using dp_fill_struct [of W zipf lexicon mg] by (simp add: dp_struct_def)
  from dp_walk_plan [OF this, of 0 "[]"] False show ?thesis
    by (simp add: fallback_merge_words_def chosen_partition_def)
qed


lemma valid_plan_Cons0:
  "valid_plan zipf lexicon mg (k # ks) W \<longleftrightarrow>
     1 \<le> k \<and> k \<le> mg \<and> k \<le> length W \<and>
     \<not> fallback_group_score zipf lexicon (take k W) \<le> - 9990 \<and>
     valid_plan zipf lexicon mg ks (drop k W)"
  using valid_plan_Cons [of zipf lexicon mg k ks 0 W] by simp

lemma dp_fill_opt:
  assumes "1 \<le> mg" "length W < 1000"
  shows "dp_opt zipf lexicon mg W 0 (dp_fill zipf lexicon W mg)"
  unfolding dp_fill_def using assms by (intro dp_opt_rows) simp_all

text \<open>
  Below a thousand tokens the sentinel is out of reach (a token scores at least \<open>-10\<close>),
  and the programme is optimal: its partition is valid and no valid partition scores more.
\<close>

theorem dp_optimal:
  assumes n: "length words < 1000"
    and v: "valid_plan zipf lexicon max_group ks words"
  shows "fallback_merge_words zipf lexicon words max_group =
           Some (join [32] (map concat
             (chunks (chosen_partition zipf lexicon words max_group) words))) \<and>
         valid_plan zipf lexicon max_group (chosen_partition zipf lexicon words max_group) words \<and>
         plan_score zipf lexicon ks words \<le>
           plan_score zipf lexicon (chosen_partition zipf lexicon words max_group) words"
proof -
  let ?P = "chosen_partition zipf lexicon words max_group"
  have "valid_plan zipf lexicon max_group ?P words \<and>
        plan_score zipf lexicon ks words \<le> plan_score zipf lexicon ?P words"
  proof (cases words)
    case Nil
    with v have "ks = []" by (auto dest: valid_plan_empty_run)
    with Nil show ?thesis by (simp add: chosen_partition_def)
  next
    case (Cons w ws)
    with v obtain k ks' where ks: "ks = k # ks'"
      by (cases ks) auto
    with v have mg: "1 \<le> max_group" by (simp add: valid_plan_Cons0)
    show ?thesis
    proof (cases ws)
      case Nil
      with Cons v ks have "k = 1" "ks' = []"
        by (auto simp: valid_plan_Cons0 dest: valid_plan_empty_run)
      with ks Nil Cons v show ?thesis by (simp add: chosen_partition_def)
    next
      case (Cons w' ws')
      with \<open>words = w # ws\<close> have two: "\<not> length words \<le> 1" by simp
      have P: "?P = plan_from (snd (dp_fill zipf lexicon words max_group)) (length words) 0"
        using two by (simp add: chosen_partition_def)
      have base: "0 \<le> (0::nat) \<and> 0 \<le> length words" by simp
      note o = dp_fill_opt [OF mg n, of zipf lexicon, unfolded dp_opt_def, rule_format, OF base,
          unfolded drop_0 P [symmetric]]
      have e: "fst (dp_fill zipf lexicon words max_group) ! 0 = plan_score zipf lexicon ?P words"
        using o by (elim conjE)
      have vp: "valid_plan zipf lexicon max_group ?P words"
        using o by (elim conjE)
      have "plan_score zipf lexicon ks words \<le> fst (dp_fill zipf lexicon words max_group) ! 0"
        using o v by blast
      then have "plan_score zipf lexicon ks words \<le> plan_score zipf lexicon ?P words"
        unfolding e .
      with vp show ?thesis by (intro conjI)
    qed
  qed
  then have a: "valid_plan zipf lexicon max_group ?P words"
    and b: "plan_score zipf lexicon ks words \<le> plan_score zipf lexicon ?P words"
    by blast+
  show ?thesis by (intro conjI merge_words_plan a b)
qed



lemma dp_sound_init: "dp_sound zipf lexicon W (dp_init (length W))"
  by (simp add: dp_sound_def dp_init_def)

lemma dp_sound_row:
  assumes st: "dp_struct (length W) (Suc i) st" and so: "dp_sound zipf lexicon W st"
    and i: "i < length W"
  shows "dp_sound zipf lexicon W (dp_row zipf lexicon W mg i st)"
proof -
  let ?g = "fallback_group_score zipf lexicon"
  define st' where "st' = dp_row zipf lexicon W mg i st"
  from dp_row_post [OF st i] have rp: "row_post ?g W i (min mg (length W - i)) st st'"
    by (simp add: st'_def)
  have "snd st' ! j = 1 \<or> \<not> ?g (take (snd st' ! j) (drop j W)) \<le> - 9990" if j: "j < length W" for j
  proof (cases "j = i")
    case False
    then have "snd st' ! j = snd st ! j" using rp by (simp add: row_post_def)
    moreover have "snd st ! j = 1 \<or> \<not> ?g (take (snd st ! j) (drop j W)) \<le> - 9990"
      using so j unfolding dp_sound_def by blast
    ultimately show ?thesis by simp
  next
    case True
    from rp have "(snd st' ! i = snd st ! i) \<or>
        \<not> ?g (take (snd st' ! i) (drop i W)) \<le> - 9990"
      unfolding row_post_def by blast
    moreover have "snd st ! i = 1 \<or> \<not> ?g (take (snd st ! i) (drop i W)) \<le> - 9990"
      using so i unfolding dp_sound_def by blast
    ultimately show ?thesis unfolding True by metis
  qed
  then show ?thesis unfolding dp_sound_def st'_def [symmetric] by blast
qed

lemma dp_sound_rows:
  assumes "i \<le> length W"
  shows "dp_sound zipf lexicon W
           (fold (dp_row zipf lexicon W mg) (rev [i..<length W]) (dp_init (length W)))"
  using assms
proof (induction "length W - i" arbitrary: i)
  case 0
  then have e: "i = length W" by simp
  show ?case unfolding e by (simp add: dp_sound_init)
next
  case (Suc d)
  then have i: "i < length W" "d = length W - Suc i" "Suc i \<le> length W" by auto
  show ?case
    unfolding fold_rev_upt [OF i(1)]
    using i Suc.hyps(1) [of "Suc i"]
    by (intro dp_sound_row dp_struct_rows) auto
qed

lemma dp_fill_sound: "dp_sound zipf lexicon W (dp_fill zipf lexicon W mg)"
  unfolding dp_fill_def by (rule dp_sound_rows) simp

lemma chunks_plan_from:
  assumes bl: "\<forall>j<length W. 1 \<le> bl ! j \<and> j + bl ! j \<le> length W"
    and i: "i \<le> length W"
    and g: "g \<in> set (chunks (plan_from bl (length W) i) (drop i W))"
  shows "\<exists>j. i \<le> j \<and> j < length W \<and> g = take (bl ! j) (drop j W)"
  using i g
proof (induction "length W - i" arbitrary: i rule: less_induct)
  case less
  show ?case
  proof (cases "i < length W")
    case False
    with less.prems show ?thesis by simp
  next
    case True
    with bl have k: "1 \<le> bl ! i" "i + bl ! i \<le> length W" by auto
    have pf: "plan_from bl (length W) i = bl ! i # plan_from bl (length W) (i + bl ! i)"
      using True k by (intro plan_from_step) simp_all
    from less.prems(2) have "g = take (bl ! i) (drop i W) \<or>
        g \<in> set (chunks (plan_from bl (length W) (i + bl ! i)) (drop (i + bl ! i) W))"
      unfolding pf by (simp add: add.commute)
    then show ?thesis
    proof
      assume "g = take (bl ! i) (drop i W)"
      with True show ?thesis by blast
    next
      assume a: "g \<in> set (chunks (plan_from bl (length W) (i + bl ! i)) (drop (i + bl ! i) W))"
      have d: "length W - (i + bl ! i) < length W - i" using k True by simp
      from less.hyps [OF d k(2) a] obtain j where
        "i + bl ! i \<le> j" "j < length W" "g = take (bl ! j) (drop j W)" by blast
      then have "i \<le> j \<and> j < length W \<and> g = take (bl ! j) (drop j W)" by simp
      then show ?thesis by (rule exI)
    qed
  qed
qed

lemma chosen_groups_sound:
  assumes "g \<in> set (chunks (chosen_partition zipf lexicon W mg) W)"
  shows "length g = 1 \<or> \<not> fallback_group_score zipf lexicon g \<le> - 9990"
proof (cases "length W \<le> 1")
  case True
  then consider "W = []" | w where "W = [w]"
    by (cases W) (auto simp: le_Suc_eq)
  then show ?thesis using assms
    by cases (auto simp: chosen_partition_def)
next
  case False
  let ?bl = "snd (dp_fill zipf lexicon W mg)"
  have bl: "\<forall>j<length W. 1 \<le> ?bl ! j \<and> j + ?bl ! j \<le> length W"
    using dp_fill_struct [of W zipf lexicon mg] by (simp add: dp_struct_def)
  have "g \<in> set (chunks (plan_from ?bl (length W) 0) (drop 0 W))"
    using assms False by (simp add: chosen_partition_def)
  from chunks_plan_from [OF bl _ this] obtain j where
    j: "j < length W" "g = take (?bl ! j) (drop j W)" by auto
  from bl j(1) have "j + ?bl ! j \<le> length W" by blast
  then have "length g = ?bl ! j" unfolding j(2) by simp
  moreover have "?bl ! j = 1 \<or> \<not> fallback_group_score zipf lexicon g \<le> - 9990"
    using dp_fill_sound [of zipf lexicon W mg] j unfolding dp_sound_def by blast
  ultimately show ?thesis by auto
qed

lemma ordinary_score:
  assumes "length tokens \<noteq> 1"
    and "\<not> (length tokens = 2 \<and> lower (tokens ! 0) \<in> DO_NOT_JOIN_TWO \<and>
          lex_get lexicon (lower (concat tokens)) = 0)"
  shows "fallback_group_score zipf lexicon tokens = ordinary_group_score zipf lexicon tokens"
  using assms by (auto simp: fallback_group_score_def ordinary_group_score_def Let_def)

section \<open>A long run defeats the finite sentinel\<close>

lemma group_rejected_low:
  assumes "length g \<noteq> 1" "token_score zipf lexicon (concat g) < 0.5"
  shows "fallback_group_score zipf lexicon g = - 9999"
  using assms by (simp add: fallback_group_score_def Let_def)

lemma token_score_unattested:
  assumes "lex_get lexicon (lower t) = 0"
  shows "token_score None lexicon t < 0"
  using assms by (simp add: token_score_def Let_def)

lemma u_x: "u ''x'' = [120]" and u_q: "u ''q'' = [113]" and u_xq: "u ''xq'' = [120, 113]"
  by (simp_all add: u_def)

lemma lower_q: "lower (replicate k 113) = replicate k 113"
  by (simp add: lower_def lower_char_def)

lemma concat_replicate_single: "concat (replicate k [c]) = replicate k c"
  by (induction k) auto

lemma long_q_run:
  assumes "2 \<le> k"
  shows "fallback_group_score None long_lexicon (replicate k (u ''q'')) = - 9999"
proof -
  have ne: "replicate k (113::nat) \<noteq> [120]" "replicate k (113::nat) \<noteq> [120, 113]"
    using assms by (cases k; simp)+
  have "lex_get long_lexicon (lower (replicate k 113)) = 0"
    using ne by (simp add: lower_q lex_get_def long_lexicon_def u_x u_xq)
  then have "token_score None long_lexicon (concat (replicate k (u ''q''))) < 0.5"
    using token_score_unattested [of long_lexicon "replicate k 113"]
    by (simp add: u_q concat_replicate_single)
  then show ?thesis using assms by (intro group_rejected_low) auto
qed

lemma long_x_run:
  assumes "2 \<le> k"
  shows "fallback_group_score None long_lexicon (u ''x'' # replicate k (u ''q'')) = - 9999"
proof -
  have l: "lower (120 # replicate k 113) = 120 # replicate k 113"
    by (simp add: lower_def lower_char_def)
  have ne: "120 # replicate k (113::nat) \<noteq> [120]" "120 # replicate k (113::nat) \<noteq> [120, 113]"
    using assms by (cases k; cases "k - 1"; simp)+
  have "lex_get long_lexicon (lower (120 # replicate k 113)) = 0"
    unfolding l using ne by (simp add: lex_get_def long_lexicon_def u_x u_xq)
  then have "token_score None long_lexicon (concat (u ''x'' # replicate k (u ''q''))) < 0.5"
    using token_score_unattested [of long_lexicon "120 # replicate k 113"]
    by (simp add: u_q u_x concat_replicate_single)
  then show ?thesis using assms by (intro group_rejected_low) auto
qed

lemma log_10000: "log 10 10000 = 4"
proof -
  have "log 10 (10 ^ 4) = 4" by (subst log_nat_power) simp_all
  then show ?thesis by simp
qed

lemma long_q: "fallback_group_score None long_lexicon [u ''q''] = - 6"
  by (simp add: fallback_group_score_def token_score_def lex_get_def long_lexicon_def
      lower_def lower_char_def u_def COMMON_STANDALONE_SHORT_def)

lemma long_x: "fallback_group_score None long_lexicon [u ''x''] = 66 / 5"
  by (simp add: fallback_group_score_def token_score_def lex_get_def long_lexicon_def
      lower_def lower_char_def u_def log_10000)

lemma long_xq: "fallback_group_score None long_lexicon [u ''x'', u ''q''] = 43 / 5"
  by (simp add: fallback_group_score_def token_score_def lex_get_def long_lexicon_def
      lower_def lower_char_def u_def log_10000 COMMON_STANDALONE_SHORT_def DO_NOT_JOIN_TWO_def)

lemma long_length: "length long_run = long_n"
  by (simp add: long_run_def long_n_def)

lemma long_chunk_q:
  assumes "1 \<le> i" "i + k \<le> long_n"
  shows "take k (drop i long_run) = replicate k (u ''q'')"
proof -
  obtain i' where i': "i = Suc i'" using assms(1) by (cases i) auto
  have "min (long_m - i') k = k" using assms(2) i' by (simp add: long_n_def)
  then show ?thesis by (simp add: long_run_def i')
qed

lemma long_chunk_x:
  assumes "1 \<le> k" "k \<le> long_n"
  shows "take k long_run = u ''x'' # replicate (k - 1) (u ''q'')"
proof -
  obtain k' where k': "k = Suc k'" using assms(1) by (cases k) auto
  have "min long_m k' = k'" using assms(2) k' by (simp add: long_n_def)
  then show ?thesis by (simp add: long_run_def k')
qed

lemma max_step_low:
  fixes d :: real
  assumes "- 6 + max (- 10000) (- 6 * d) \<le> - 10000"
  shows "max (- 10000) (- 6 * (d + 1)) = - 10000"
  using assms unfolding max_def by (simp split: if_splits)

lemma max_step_high:
  fixes d :: real
  assumes "- 10000 \<le> - 6 + max (- 10000) (- 6 * d)"
  shows "- 6 + max (- 10000) (- 6 * d) = max (- 10000) (- 6 * (d + 1))"
  using assms unfolding max_def by (simp split: if_splits)

lemma q_inv_init: "q_inv long_n (dp_init long_n)"
proof -
  have s: "dp_struct long_n long_n (dp_init long_n)" by (rule dp_struct_init)
  then have "fst (dp_init long_n) ! long_n = 0" by (simp add: dp_struct_def)
  moreover have "snd (dp_init long_n) = replicate long_n 1" by (simp add: dp_init_def)
  ultimately show ?thesis
    unfolding q_inv_def using s by (auto simp: le_antisym)
qed

lemma q_inv_row:
  assumes inv: "q_inv (Suc i) st" and i: "1 \<le> i" "i < long_n"
  shows "q_inv i (dp_row None long_lexicon long_run 5 i st)"
proof -
  let ?g = "fallback_group_score None long_lexicon"
  let ?m = "min 5 (long_n - i)"
  define st' where "st' = dp_row None long_lexicon long_run 5 i st"
  have st: "dp_struct (length long_run) (Suc i) st" and il: "i < length long_run"
    using inv i by (simp_all add: q_inv_def long_length)
  from dp_row_post [OF st il, of None long_lexicon 5]
  have rp: "row_post ?g long_run i ?m st st'"
    by (simp add: st'_def long_length)
  from dp_struct_row [OF st il, of None long_lexicon 5]
  have st'': "dp_struct long_n i st'" by (simp add: st'_def long_length)
  have bl: "snd st = replicate long_n 1" using inv by (simp add: q_inv_def)
  have bs: "fst st ! j = max (- 10000) (- 6 * real (long_n - j))" if "i < j" "j \<le> long_n" for j
    using inv that by (simp add: q_inv_def Suc_le_eq)
  have init: "fst st ! i = - 10000" using st by (simp add: dp_struct_def)
  have same: "fst st' ! j = fst st ! j" "snd st' ! j = snd st ! j" if "j \<noteq> i" for j
    using rp that by (simp_all add: row_post_def)
  have valid1: "k = 1" if "1 \<le> k" "k \<le> ?m" "\<not> ?g (take k (drop i long_run)) \<le> - 9990" for k
  proof (rule ccontr)
    assume "k \<noteq> 1"
    with that have "2 \<le> k" "i + k \<le> long_n" by auto
    then have "?g (take k (drop i long_run)) = - 9999"
      using i by (simp add: long_chunk_q long_q_run)
    with that(3) show False by simp
  qed
  have one: "take 1 (drop i long_run) = [u ''q'']"
    using long_chunk_q [of i 1] i by simp
  have one': "take (Suc 0) (drop i long_run) = [u ''q'']"
    using one by simp
  have ok1: "\<not> ?g (take 1 (drop i long_run)) \<le> - 9990"
    by (simp add: one' long_q)
  have up0: "?g (take 1 (drop i long_run)) + fst st ! (i + 1) \<le> fst st' ! i"
    using rp ok1 i unfolding row_post_def by (elim conjE allE [of _ 1]) simp
  have up: "- 6 + fst st ! Suc i \<le> fst st' ! i"
    using up0 by (simp add: one' long_q)
  have nxt: "fst st ! Suc i = max (- 10000) (- 6 * real (long_n - Suc i))"
    using i by (intro bs) simp_all
  have r: "real (long_n - i) = real (long_n - Suc i) + 1"
    using i by (simp add: of_nat_diff)
  from rp have dis: "(fst st' ! i = fst st ! i \<and> snd st' ! i = snd st ! i) \<or>
      (1 \<le> snd st' ! i \<and> snd st' ! i \<le> ?m \<and>
       \<not> ?g (take (snd st' ! i) (drop i long_run)) \<le> - 9990 \<and>
       fst st' ! i = ?g (take (snd st' ! i) (drop i long_run)) + fst st ! (i + snd st' ! i))"
    unfolding row_post_def by (elim conjE)
  have lo: "- 10000 \<le> fst st' ! i"
    using rp init unfolding row_post_def by (elim conjE) simp
  have res: "snd st' ! i = 1 \<and> fst st' ! i = max (- 10000) (- 6 * real (long_n - i))"
    using dis
  proof
    assume a: "fst st' ! i = fst st ! i \<and> snd st' ! i = snd st ! i"
    then have k1: "snd st' ! i = 1" using bl i by simp
    have e: "fst st' ! i = - 10000" using a init by simp
    have "- 6 + max (- 10000) (- 6 * real (long_n - Suc i)) \<le> - 10000"
      using up unfolding nxt e .
    from max_step_low [OF this] have "fst st' ! i = max (- 10000) (- 6 * real (long_n - i))"
      unfolding r e by simp
    with k1 show ?thesis by simp
  next
    assume a: "1 \<le> snd st' ! i \<and> snd st' ! i \<le> ?m \<and>
       \<not> ?g (take (snd st' ! i) (drop i long_run)) \<le> - 9990 \<and>
       fst st' ! i = ?g (take (snd st' ! i) (drop i long_run)) + fst st ! (i + snd st' ! i)"
    then have k1: "snd st' ! i = 1" by (intro valid1) simp_all
    with a have e: "fst st' ! i = - 6 + fst st ! Suc i"
      by (simp add: one' long_q)
    have "- 10000 \<le> - 6 + max (- 10000) (- 6 * real (long_n - Suc i))"
      using lo unfolding e nxt .
    from max_step_high [OF this] have "fst st' ! i = max (- 10000) (- 6 * real (long_n - i))"
      unfolding r e nxt .
    with k1 show ?thesis by simp
  qed
  have len: "length (snd st') = long_n" using st'' by (simp add: dp_struct_def)
  have "snd st' = replicate long_n 1"
  proof (rule nth_equalityI)
    show "length (snd st') = length (replicate long_n (1::nat))" using len by simp
  next
    fix j assume "j < length (snd st')"
    then have j: "j < long_n" using len by simp
    show "snd st' ! j = replicate long_n 1 ! j"
    proof (cases "j = i")
      case True
      then show ?thesis using res j by simp
    next
      case False
      then show ?thesis using same(2) [OF False] bl j by simp
    qed
  qed
  moreover have "fst st' ! j = max (- 10000) (- 6 * real (long_n - j))" if "i \<le> j" "j \<le> long_n" for j
  proof (cases "j = i")
    case True
    then show ?thesis using res by simp
  next
    case False
    with that have "i < j" by simp
    then show ?thesis using same(1) [OF False] bs that by simp
  qed
  ultimately show ?thesis
    unfolding q_inv_def st'_def [symmetric] using st'' by blast
qed

lemma q_inv_rows:
  assumes "1 \<le> i" "i \<le> long_n"
  shows "q_inv i (fold (dp_row None long_lexicon long_run 5) (rev [i..<long_n]) (dp_init long_n))"
  using assms
proof (induction "long_n - i" arbitrary: i)
  case 0
  then have e: "i = long_n" by simp
  show ?case unfolding e by (simp add: q_inv_init)
next
  case (Suc d)
  then have i: "i < long_n" "d = long_n - Suc i" "Suc i \<le> long_n" "1 \<le> Suc i" by auto
  show ?case
    unfolding fold_rev_upt [OF i(1)]
    using i Suc.prems Suc.hyps(1) [of "Suc i"]
    by (intro q_inv_row) auto
qed

lemma plan_from_ones:
  assumes "i \<le> n"
  shows "plan_from (replicate n 1) n i = replicate (n - i) 1"
  using assms
proof (induction "n - i" arbitrary: i)
  case 0
  then show ?case by simp
next
  case (Suc d)
  then have i: "i < n" "d = n - Suc i" "Suc i \<le> n" by auto
  then have "plan_from (replicate n 1) n (Suc i) = replicate (n - Suc i) 1"
    by (intro Suc.hyps(1)) auto
  moreover have "n - i = Suc (n - Suc i)" using i by simp
  ultimately show ?case using i by (simp add: plan_from_step)
qed

lemma chunks_ones: "chunks (replicate (length ws) 1) ws = map (\<lambda>w. [w]) ws"
proof (induction ws)
  case Nil
  show ?case by simp
next
  case (Cons w ws)
  then show ?case by (simp add: take_Suc_conv_app_nth)
qed

lemma long_m_facts: "2 \<le> long_m" "real long_m = 1667" "long_n = Suc long_m" "5 \<le> long_n"
  "real (long_n - 1) = 1667" "real (long_n - 2) = 1666" "real (long_m - 1) = 1666"
  "real (long_m - Suc 0) = 1666" "real (long_n - Suc 0) = 1667"
  by (simp_all add: long_m_def long_n_def)

lemma long_take2: "take 2 long_run = [u ''x'', u ''q'']"
proof -
  obtain m where "long_m = Suc m" using long_m_facts(1) by (cases long_m) auto
  then show ?thesis by (simp add: long_run_def numeral_2_eq_2)
qed

lemma long_drop2: "drop 2 long_run = replicate (long_m - 1) (u ''q'')"
  by (simp add: long_run_def numeral_2_eq_2)

lemma long_singles_score:
  "plan_score None long_lexicon (replicate long_n 1) long_run = - 49944 / 5"
proof -
  have "chunks (replicate long_n 1) long_run = map (\<lambda>w. [w]) long_run"
    using chunks_ones [of long_run] by (simp add: long_length)
  then have "plan_score None long_lexicon (replicate long_n 1) long_run =
      fallback_group_score None long_lexicon [u ''x''] +
      sum_list (replicate long_m (fallback_group_score None long_lexicon [u ''q'']))"
    by (simp add: plan_score_def long_run_def comp_def map_replicate_const)
  then show ?thesis
    by (simp add: sum_list_replicate long_x long_q long_m_facts)
qed

lemma long_rival_chunks:
  "chunks rival_plan long_run =
     [u ''x'', u ''q''] # map (\<lambda>w. [w]) (replicate (long_m - 1) (u ''q''))"
  using chunks_ones [of "replicate (long_m - 1) (u ''q'')"]
  by (simp add: rival_plan_def long_take2 long_drop2)

lemma long_rival_score:
  "plan_score None long_lexicon rival_plan long_run = - 49937 / 5"
  by (simp add: plan_score_def long_rival_chunks comp_def sum_list_replicate long_xq long_q
      long_m_facts)

lemma long_rival_valid: "valid_plan None long_lexicon 5 rival_plan long_run"
proof -
  have "list_all (\<lambda>k. 1 \<le> k \<and> k \<le> 5) rival_plan"
    by (auto simp: rival_plan_def list_all_iff)
  moreover have "sum_list rival_plan = length long_run"
    using long_m_facts(1) by (simp add: rival_plan_def sum_list_replicate long_length long_n_def)
  moreover have "list_all (\<lambda>g. length g = 1 \<or> fallback_group_score None long_lexicon g \<noteq> - 9999)
       (chunks rival_plan long_run)"
    by (auto simp: long_rival_chunks list_all_iff long_xq)
  ultimately show ?thesis by (simp add: valid_plan_def)
qed

lemma long_best_len: "snd (dp_fill None long_lexicon long_run 5) = replicate long_n 1"
proof -
  let ?g = "fallback_group_score None long_lexicon"
  define st where "st = fold (dp_row None long_lexicon long_run 5) (rev [1..<long_n]) (dp_init long_n)"
  define st' where "st' = dp_row None long_lexicon long_run 5 0 st"
  have pos: "0 < long_n" using long_m_facts(4) by simp
  have fill: "dp_fill None long_lexicon long_run 5 = st'"
    unfolding dp_fill_def long_length fold_rev_upt [OF pos] st'_def st_def by simp
  have inv: "q_inv 1 st"
    unfolding st_def using long_m_facts(4) by (intro q_inv_rows) simp_all
  have str: "dp_struct (length long_run) (Suc 0) st" and il: "0 < length long_run"
    using inv pos by (simp_all add: q_inv_def long_length)
  from dp_row_post [OF str il, of None long_lexicon 5]
  have rp: "row_post ?g long_run 0 5 st st'"
    using long_m_facts(4) by (simp add: st'_def long_length)
  from dp_struct_row [OF str il, of None long_lexicon 5]
  have len: "length (snd st') = long_n" by (simp add: st'_def long_length dp_struct_def)
  have bl: "snd st = replicate long_n 1" using inv by (simp add: q_inv_def)
  have bs1: "fst st ! 1 = - 10000"
  proof -
    have "fst st ! 1 = max (- 10000) (- 6 * real (long_n - 1))"
      using inv long_m_facts(4) unfolding q_inv_def by (elim conjE allE [of _ 1]) simp
    then show ?thesis by (simp add: long_m_facts)
  qed
  have bs1': "fst st ! Suc 0 = - 10000" using bs1 by simp
  have bs2: "fst st ! 2 = - 9996"
  proof -
    have "fst st ! 2 = max (- 10000) (- 6 * real (long_n - 2))"
      using inv long_m_facts(4) unfolding q_inv_def by (elim conjE allE [of _ 2]) simp
    then show ?thesis by (simp add: long_m_facts)
  qed
  have one: "take 1 (drop 0 long_run) = [u ''x'']"
    by (simp add: long_run_def)
  have up: "66 / 5 + (- 10000) \<le> fst st' ! 0"
  proof -
    have "\<not> ?g (take 1 (drop 0 long_run)) \<le> - 9990"
      unfolding one by (simp add: long_x)
    then have "?g (take 1 (drop 0 long_run)) + fst st ! (0 + 1) \<le> fst st' ! 0"
      using rp unfolding row_post_def by (elim conjE allE [of _ 1]) simp
    then show ?thesis unfolding one long_x by (simp add: bs1')
  qed
  have init: "fst st ! 0 = - 10000" using str by (simp add: dp_struct_def)
  from rp have dis: "(fst st' ! 0 = fst st ! 0 \<and> snd st' ! 0 = snd st ! 0) \<or>
      (1 \<le> snd st' ! 0 \<and> snd st' ! 0 \<le> 5 \<and>
       \<not> ?g (take (snd st' ! 0) (drop 0 long_run)) \<le> - 9990 \<and>
       fst st' ! 0 = ?g (take (snd st' ! 0) (drop 0 long_run)) + fst st ! (0 + snd st' ! 0))"
    unfolding row_post_def by (elim conjE)
  have k0: "snd st' ! 0 = 1"
    using dis
  proof
    assume "fst st' ! 0 = fst st ! 0 \<and> snd st' ! 0 = snd st ! 0"
    then show ?thesis using bl pos by simp
  next
    assume a: "1 \<le> snd st' ! 0 \<and> snd st' ! 0 \<le> 5 \<and>
       \<not> ?g (take (snd st' ! 0) (drop 0 long_run)) \<le> - 9990 \<and>
       fst st' ! 0 = ?g (take (snd st' ! 0) (drop 0 long_run)) + fst st ! (0 + snd st' ! 0)"
    define k where "k = snd st' ! 0"
    from a have k: "1 \<le> k" "k \<le> 5" "\<not> ?g (take k long_run) \<le> - 9990"
      "fst st' ! 0 = ?g (take k long_run) + fst st ! k"
      by (simp_all add: k_def)
    have kn: "k \<le> long_n" using k(2) long_m_facts(4) by simp
    have "k < 3"
    proof (rule ccontr)
      assume "\<not> k < 3"
      then have "2 \<le> k - 1" by simp
      then have "?g (take k long_run) = - 9999"
        using k(1) kn by (simp add: long_chunk_x long_x_run)
      with k(3) show False by simp
    qed
    moreover have "k \<noteq> 2"
    proof
      assume "k = 2"
      with k(4) have "fst st' ! 0 = 43 / 5 + (- 9996)"
        by (simp add: long_take2 long_xq bs2)
      with up show False by simp
    qed
    ultimately show ?thesis using k(1) by (simp add: k_def)
  qed
  have "snd st' = replicate long_n 1"
  proof (rule nth_equalityI)
    show "length (snd st') = length (replicate long_n (1::nat))" using len by simp
  next
    fix j assume "j < length (snd st')"
    then have j: "j < long_n" using len by simp
    show "snd st' ! j = replicate long_n 1 ! j"
    proof (cases "j = 0")
      case True
      then show ?thesis using k0 j by simp
    next
      case False
      then have "snd st' ! j = snd st ! j"
        using rp unfolding row_post_def by (elim conjE allE [of _ j]) simp
      then show ?thesis using bl j by simp
    qed
  qed
  then show ?thesis by (simp add: fill)
qed

lemma long_chosen: "chosen_partition None long_lexicon long_run 5 = replicate long_n 1"
proof -
  have "\<not> length long_run \<le> 1" using long_m_facts(4) by (simp add: long_length)
  then show ?thesis
    using plan_from_ones [of 0 long_n]
    by (simp add: chosen_partition_def long_best_len long_length)
qed

text \<open>
  C3 fails on a long run. The run is \<open>x\<close> followed by 1667 tokens \<open>q\<close>; the lexicon
  has \<open>x\<close> 9999 times and \<open>xq\<close> nine times. Splitting every token scores
  \<open>13.2 - 10002\<close>, merging the first two scores \<open>8.6 - 9996\<close>, which is more and is a
  valid partition; but the best score of the 1667 tokens \<open>q\<close> falls below the initial
  value \<open>-10000\<close> of \<^verbatim>\<open>best_score\<close> and is never stored, so the programme compares
  \<open>13.2 - 10000\<close> with \<open>8.6 - 9996\<close> and splits.
\<close>

theorem dp_long_run_counterexample:
  "valid_plan None long_lexicon 5 rival_plan long_run \<and>
   plan_score None long_lexicon (chosen_partition None long_lexicon long_run 5) long_run
     < plan_score None long_lexicon rival_plan long_run"
  unfolding long_chosen long_singles_score long_rival_score
  using long_rival_valid by simp

section \<open>The fallback cleaner keeps every character that is not whitespace\<close>










section \<open>Worked examples of the fallback path\<close>










lemma kepada_scores:
  "fallback_group_score None kepada_lexicon [u ''ke''] = - 5/2"
  "fallback_group_score None kepada_lexicon [u ''pada''] = - 5/2"
  "fallback_group_score None kepada_lexicon [u ''ke'', u ''pada''] = 43 / 5"
  by (simp_all add: fallback_group_score_def token_score_def lex_get_def kepada_lexicon_def
      lower_def lower_char_def u_def COMMON_STANDALONE_SHORT_def DO_NOT_JOIN_TWO_def)

lemma kepada_merge:
  "fallback_merge_words None kepada_lexicon [u ''ke'', u ''pada''] 5 = Some (u ''kepada'')"
proof -
  let ?W = "[u ''ke'', u ''pada'']"
  have r: "rev [0..<2] = [1, 0::nat]" by (simp add: numeral_2_eq_2)
  have l: "length ?W = 2" by simp
  have i: "dp_init 2 = ([- 10000, - 10000, 0], [1, 1])"
    by (simp add: dp_init_def numeral_2_eq_2)
  have r1: "dp_row None kepada_lexicon ?W 5 1 ([- 10000, - 10000, 0], [1, 1]) = ([- 10000, - 5/2, 0], [1, 1])"
    by (simp add: dp_row_def dp_try_def kepada_scores Let_def)
  have r0: "dp_row None kepada_lexicon ?W 5 0 ([- 10000, - 5/2, 0], [1, 1]) = ([43/5, - 5/2, 0], [2, 1])"
    by (simp add: dp_row_def dp_try_def kepada_scores Let_def)
  have "dp_fill None kepada_lexicon ?W 5 = fold (dp_row None kepada_lexicon ?W 5) [1, 0] (dp_init 2)"
    by (simp only: dp_fill_def l r)
  also have "\<dots> = ([43/5, - 5/2, 0], [2, 1])"
    by (simp only: fold_simps o_apply id_apply i r1 r0)
  finally have f: "dp_fill None kepada_lexicon ?W 5 = ([43/5, - 5/2, 0], [2, 1])" .
  have "dp_walk ?W [2, 1] 0 [] = Some [u ''ke'' @ u ''pada'']"
    by (simp add: dp_walk.simps)
  then show ?thesis
    by (simp add: fallback_merge_words_def f) (simp add: u_def)
qed

lemma mana_scores:
  "fallback_group_score (Some mana_zipf) mana_lexicon [u ''di''] = - 5/2"
  "fallback_group_score (Some mana_zipf) mana_lexicon [u ''mana''] = 39/5"
  "ordinary_group_score (Some mana_zipf) mana_lexicon [u ''di'', u ''mana''] = 28/5"
  "lower ([u ''di'', u ''mana''] ! 0) \<in> DO_NOT_JOIN_TWO"
  "lex_get mana_lexicon (lower (concat [u ''di'', u ''mana''])) = 0"
  by (simp_all add: fallback_group_score_def ordinary_group_score_def token_score_def lex_get_def
      mana_lexicon_def mana_zipf_def
      lower_def lower_char_def u_def COMMON_STANDALONE_SHORT_def DO_NOT_JOIN_TWO_def)

lemma mana_merge:
  "fallback_merge_words (Some mana_zipf) mana_lexicon [u ''di'', u ''mana''] 5 = Some (u ''di mana'')"
  "chosen_partition (Some mana_zipf) mana_lexicon [u ''di'', u ''mana''] 5 = [1, 1]"
proof -
  let ?W = "[u ''di'', u ''mana'']"
  have r: "rev [0..<2] = [1, 0::nat]" by (simp add: numeral_2_eq_2)
  have l: "length ?W = 2" by simp
  have i: "dp_init 2 = ([- 10000, - 10000, 0], [1, 1])"
    by (simp add: dp_init_def numeral_2_eq_2)
  have pair: "fallback_group_score (Some mana_zipf) mana_lexicon ?W = - 9999"
    using mana_scores(4,5) by (intro do_not_join_two_rejected) simp_all
  have r1: "dp_row (Some mana_zipf) mana_lexicon ?W 5 1 ([- 10000, - 10000, 0], [1, 1]) =
      ([- 10000, 39/5, 0], [1, 1])"
    by (simp add: dp_row_def dp_try_def mana_scores Let_def)
  have r0: "dp_row (Some mana_zipf) mana_lexicon ?W 5 0 ([- 10000, 39/5, 0], [1, 1]) =
      ([53/10, 39/5, 0], [1, 1])"
    by (simp add: dp_row_def dp_try_def mana_scores pair Let_def)
  have "dp_fill (Some mana_zipf) mana_lexicon ?W 5 =
      fold (dp_row (Some mana_zipf) mana_lexicon ?W 5) [1, 0] (dp_init 2)"
    by (simp only: dp_fill_def l r)
  also have "\<dots> = ([53/10, 39/5, 0], [1, 1])"
    by (simp only: fold_simps o_apply id_apply i r1 r0)
  finally have f: "dp_fill (Some mana_zipf) mana_lexicon ?W 5 = ([53/10, 39/5, 0], [1, 1])" .
  have "dp_walk ?W [1, 1] 0 [] = Some [u ''di'', u ''mana'']"
    by (simp add: dp_walk.simps)
  then show "fallback_merge_words (Some mana_zipf) mana_lexicon ?W 5 = Some (u ''di mana'')"
    by (simp add: fallback_merge_words_def f) (simp add: u_def)
  have "plan_from [1, 1] (length ?W) 0 = [1, 1]"
    by (simp add: plan_from.simps)
  then show "chosen_partition (Some mana_zipf) mana_lexicon ?W 5 = [1, 1]"
    by (simp add: chosen_partition_def f)
qed

lemma kepada_attested:
  "lower ([u ''ke'', u ''pada''] ! 0) \<in> DO_NOT_JOIN_TWO"
  "lex_get kepada_lexicon (lower (concat [u ''ke'', u ''pada''])) = 9"
  "ordinary_group_score None kepada_lexicon [u ''ke'', u ''pada''] = 43 / 5"
  by (simp_all add: ordinary_group_score_def token_score_def lex_get_def
      kepada_lexicon_def lower_def lower_char_def u_def COMMON_STANDALONE_SHORT_def DO_NOT_JOIN_TWO_def)

section \<open>Tail trimming: sentence ends and skipped trimming\<close>











section \<open>Similarity ratios and reference choice on concrete rows\<close>

lemmas difflib_eval = longest_run_def lm_row_def lm_try_def extend_left.simps extend_right.simps
  find_longest_match_def Let_def upt_conv_Cons matching_blocks_rec.simps
  sequence_ratio_def ratio_def get_matching_blocks_def collapse_step_def

lemma demo_ratios:
  "sequence_ratio (u ''abcd'') (u ''abcx'') = 3 / 4"
  "sequence_ratio (u ''abcd'') (u ''abcd'') = 1"
  by (simp_all add: difflib_eval u_def)

lemma demo_neighbor:
  "choose_reference (u ''abcd'') demo_rows 3 0.82 0.82 6 =
     (Some \<lparr>verse = 4, rtext = u ''ab cd'', normalized = u ''abcd''\<rparr>, Neighbor, 1)"
proof -
  have "[max 1 (3 - 6)..3 + 6] = [1, 2, 3, 4, 5, 6, 7, 8, 9 :: int]"
    by (simp add: upto.simps)
  then show ?thesis
    by (simp add: choose_reference_def neighbor_step_def demo_rows_def demo_ratios Let_def)
qed

section \<open>The claims about the fallback path\<close>

text \<open>
  C2, as the code has it. Take a group of exactly two word tokens whose first token,
  lowercased, is a never-merge word. If the lowercased concatenation of the two has no
  entry in the lexicon (count zero), the scorer returns the rejection sentinel \<open>-9999\<close>,
  and the dynamic programme never makes that pair one word: whatever the run and the
  maximal group size, the pair is none of the groups of the partition from which
  \<^verbatim>\<open>fallback_merge_words\<close> builds its result. If the merged form is attested in the
  lexicon (count at least one), the rule does not apply and the pair gets the ordinary
  score of a group of several tokens (\<open>ordinary_group_score\<close>, lines 550-558 of the
  script), so that it may be merged.
\<close>

theorem never_merge_pair:
  assumes "length tokens = 2" and "list_all is_word_token tokens"
    and "lower (tokens ! 0) \<in> DO_NOT_JOIN_TWO"
  shows "fallback_group_score zipf lexicon tokens =
           (if lex_get lexicon (lower (concat tokens)) = 0 then - 9999
            else ordinary_group_score zipf lexicon tokens) \<and>
         (lex_get lexicon (lower (concat tokens)) = 0 \<longrightarrow>
            (\<forall>words max_group. list_all is_word_token words \<longrightarrow>
               fallback_merge_words zipf lexicon words max_group =
                 Some (join [32] (map concat
                   (chunks (chosen_partition zipf lexicon words max_group) words))) \<and>
               tokens \<notin> set (chunks (chosen_partition zipf lexicon words max_group) words)))"
proof (intro conjI impI allI)
  show "fallback_group_score zipf lexicon tokens =
           (if lex_get lexicon (lower (concat tokens)) = 0 then - 9999
            else ordinary_group_score zipf lexicon tokens)"
    using assms(1,3) by (simp add: do_not_join_two_rejected ordinary_score)
next
  fix words max_group
  show "fallback_merge_words zipf lexicon words max_group =
          Some (join [32] (map concat
            (chunks (chosen_partition zipf lexicon words max_group) words)))"
    by (rule merge_words_plan)
next
  fix words max_group
  assume un: "lex_get lexicon (lower (concat tokens)) = 0"
  have rej: "fallback_group_score zipf lexicon tokens = - 9999"
    using assms(1,3) un by (rule do_not_join_two_rejected)
  show "tokens \<notin> set (chunks (chosen_partition zipf lexicon words max_group) words)"
  proof
    assume "tokens \<in> set (chunks (chosen_partition zipf lexicon words max_group) words)"
    from chosen_groups_sound [OF this] assms(1) rej show False by simp
  qed
qed

text \<open>
  The rule at work, and the rule switched off. With \<open>dimana\<close> frequent in the general
  frequency resource and \<open>mana\<close> attested nine times, the ordinary score of the pair
  \<open>di\<close>, \<open>mana\<close> would be \<open>5.6\<close> and beat the split (\<open>5.3\<close>); the rule rejects the
  pair and the run stays \<open>di mana\<close>. With \<open>kepada\<close> in the lexicon the pair \<open>ke\<close>,
  \<open>pada\<close> is scored \<open>8.6\<close> and merged.
\<close>

theorem never_merge_pair_witness:
  "length [u ''di'', u ''mana''] = 2 \<and>
   list_all is_word_token [u ''di'', u ''mana''] \<and>
   lower ([u ''di'', u ''mana''] ! 0) \<in> DO_NOT_JOIN_TWO \<and>
   lex_get mana_lexicon (lower (concat [u ''di'', u ''mana''])) = 0 \<and>
   ordinary_group_score (Some mana_zipf) mana_lexicon [u ''di'', u ''mana''] = 28 / 5 \<and>
   fallback_group_score (Some mana_zipf) mana_lexicon [u ''di'', u ''mana''] = - 9999 \<and>
   fallback_merge_words (Some mana_zipf) mana_lexicon [u ''di'', u ''mana''] 5 = Some (u ''di mana'') \<and>
   [u ''di'', u ''mana''] \<notin>
     set (chunks (chosen_partition (Some mana_zipf) mana_lexicon [u ''di'', u ''mana''] 5)
       [u ''di'', u ''mana'']) \<and>
   length [u ''ke'', u ''pada''] = 2 \<and>
   list_all is_word_token [u ''ke'', u ''pada''] \<and>
   lower ([u ''ke'', u ''pada''] ! 0) \<in> DO_NOT_JOIN_TWO \<and>
   lex_get kepada_lexicon (lower (concat [u ''ke'', u ''pada''])) = 9 \<and>
   fallback_group_score None kepada_lexicon [u ''ke'', u ''pada''] = 43 / 5 \<and>
   fallback_merge_words None kepada_lexicon [u ''ke'', u ''pada''] 5 = Some (u ''kepada'')"
proof -
  let ?T = "[u ''di'', u ''mana'']"
  let ?K = "[u ''ke'', u ''pada'']"
  have h1: "length ?T = 2" by simp
  have h2: "list_all is_word_token ?T"
    by (simp add: is_word_token_def is_word_char_def is_letter_def u_def)
  note h3 = mana_scores(4)
  note h4 = mana_scores(5)
  from never_merge_pair [OF h1 h2 h3, of "Some mana_zipf" mana_lexicon]
  have a: "fallback_group_score (Some mana_zipf) mana_lexicon ?T =
      (if lex_get mana_lexicon (lower (concat ?T)) = 0 then - 9999
       else ordinary_group_score (Some mana_zipf) mana_lexicon ?T)"
    and b: "lex_get mana_lexicon (lower (concat ?T)) = 0 \<longrightarrow>
      (\<forall>words max_group. list_all is_word_token words \<longrightarrow>
         fallback_merge_words (Some mana_zipf) mana_lexicon words max_group =
           Some (join [32] (map concat
             (chunks (chosen_partition (Some mana_zipf) mana_lexicon words max_group) words))) \<and>
         ?T \<notin> set (chunks (chosen_partition (Some mana_zipf) mana_lexicon words max_group) words))"
    by blast+
  from a have c1: "fallback_group_score (Some mana_zipf) mana_lexicon ?T = - 9999"
    by (simp only: h4 refl if_True)
  from b h4 h2 have c2:
    "?T \<notin> set (chunks (chosen_partition (Some mana_zipf) mana_lexicon ?T 5) ?T)" by blast
  have k1: "length ?K = 2" by simp
  have k2: "list_all is_word_token ?K"
    by (simp add: is_word_token_def is_word_char_def is_letter_def u_def)
  note k3 = kepada_attested(1)
  from never_merge_pair [OF k1 k2 k3, of None kepada_lexicon]
  have "fallback_group_score None kepada_lexicon ?K =
      (if lex_get kepada_lexicon (lower (concat ?K)) = 0 then - 9999
       else ordinary_group_score None kepada_lexicon ?K)"
    by blast
  moreover have "lex_get kepada_lexicon (lower (concat ?K)) \<noteq> 0"
    by (simp only: kepada_attested(2))
  ultimately have "fallback_group_score None kepada_lexicon ?K =
      ordinary_group_score None kepada_lexicon ?K"
    by (simp only: if_False)
  then have c3: "fallback_group_score None kepada_lexicon ?K = 43 / 5"
    by (simp only: kepada_attested(3))
  from h1 h2 h3 h4 mana_scores(3) c1 mana_merge(1) c2 k1 k2 k3 kepada_attested(2) c3 kepada_merge
  show ?thesis by blast
qed

text \<open>
  C2 as stated fails: with \<open>kepada\<close> attested nine times in the lexicon, the pair
  \<open>ke\<close>, \<open>pada\<close> starts with a never-merge word and still scores \<open>7.8 + 0.8\<close>.
\<close>

theorem do_not_join_two_counterexample:
  "length [u ''ke'', u ''pada''] = 2 \<and>
   lower ([u ''ke'', u ''pada''] ! 0) \<in> DO_NOT_JOIN_TWO \<and>
   fallback_group_score None [u ''kepada'' \<mapsto> 9] [u ''ke'', u ''pada''] = 43 / 5"
  by (simp add: fallback_group_score_def token_score_def lex_get_def lower_def
      lower_char_def u_def COMMON_STANDALONE_SHORT_def DO_NOT_JOIN_TWO_def)



section \<open>The claim about skipped trimming\<close>




section \<open>Claim C7: the direct reference short-circuits the neighbour search\<close>

text \<open>
  Claim C7. If the reference row at the exact verse number exists and its similarity ratio
  against the corrupted verse is at least \<open>min_direct_ratio\<close> (equality included), then
  \<open>choose_reference\<close> returns that row with mode \<open>Same\<close> and that ratio. No neighbour is
  consulted: the result is the same for every other table of reference rows that has the same
  row at this verse, for every neighbour window and every neighbour threshold. Conversely, on
  every input the mode \<open>Same\<close> is returned only in this case, so the gate is exactly
  \<open>ratio \<ge> min_direct_ratio\<close>.
\<close>

theorem direct_reference_short_circuit:
  assumes "ref_rows verse_no = Some direct"
    and "min_direct_ratio \<le> sequence_ratio tb2_norm (normalized direct)"
  shows "choose_reference tb2_norm ref_rows verse_no min_direct_ratio min_neighbor_ratio
             neighbor_window =
           (Some direct, Same, sequence_ratio tb2_norm (normalized direct)) \<and>
         (\<forall>rows' min_neighbor' window'. rows' verse_no = Some direct \<longrightarrow>
            choose_reference tb2_norm rows' verse_no min_direct_ratio min_neighbor' window' =
            choose_reference tb2_norm ref_rows verse_no min_direct_ratio min_neighbor_ratio
              neighbor_window) \<and>
         (\<forall>t rows v md mn w. fst (snd (choose_reference t rows v md mn w)) = Same \<longleftrightarrow>
            (\<exists>d. rows v = Some d \<and> md \<le> sequence_ratio t (normalized d)))"
proof -
  have a: "choose_reference tb2_norm rows verse_no min_direct_ratio mn w =
      (Some direct, Same, sequence_ratio tb2_norm (normalized direct))"
    if "rows verse_no = Some direct" for rows mn w
    using that assms(2) by (simp add: choose_reference_def)
  have c: "fst (snd (choose_reference t rows v md mn w)) = Same \<longleftrightarrow>
      (\<exists>d. rows v = Some d \<and> md \<le> sequence_ratio t (normalized d))" for t rows v md mn w
    by (auto simp: choose_reference_def Let_def split: option.splits)
  from assms(1) have a1: "choose_reference tb2_norm ref_rows verse_no min_direct_ratio min_neighbor_ratio
      neighbor_window = (Some direct, Same, sequence_ratio tb2_norm (normalized direct))"
    by (rule a)
  show ?thesis using a1 a c by simp
qed

theorem direct_reference_short_circuit_witness:
  "demo_rows 3 = Some \<lparr>verse = 3, rtext = u ''ab cx'', normalized = u ''abcx''\<rparr> \<and>
   sequence_ratio (u ''abcd'') (u ''abcx'') = 3 / 4 \<and>
   choose_reference (u ''abcd'') demo_rows 3 (3 / 4) 0.82 6 =
     (Some \<lparr>verse = 3, rtext = u ''ab cx'', normalized = u ''abcx''\<rparr>, Same, 3 / 4) \<and>
   choose_reference (u ''abcd'') demo_rows 3 0.82 0.82 6 =
     (Some \<lparr>verse = 4, rtext = u ''ab cd'', normalized = u ''abcd''\<rparr>, Neighbor, 1)"
proof -
  let ?d = "\<lparr>verse = 3, rtext = u ''ab cx'', normalized = u ''abcx''\<rparr>"
  have h1: "demo_rows 3 = Some ?d" by (simp add: demo_rows_def)
  have h2: "(3 / 4 :: real) \<le> sequence_ratio (u ''abcd'') (normalized ?d)"
    by (simp add: demo_ratios)
  from direct_reference_short_circuit [where ref_rows = demo_rows and verse_no = 3 and direct = "?d"
      and min_direct_ratio = "3 / 4" and tb2_norm = "u ''abcd''" and min_neighbor_ratio = "0.82"
      and neighbor_window = 6, OF h1 h2]
  have "choose_reference (u ''abcd'') demo_rows 3 (3 / 4) 0.82 6 =
      (Some ?d, Same, sequence_ratio (u ''abcd'') (normalized ?d))" by blast
  then have "choose_reference (u ''abcd'') demo_rows 3 (3 / 4) 0.82 6 = (Some ?d, Same, 3 / 4)"
    by (simp add: demo_ratios)
  with h1 demo_ratios(1) demo_neighbor show ?thesis by blast
qed

end
